theory Spec2Isabelle
  imports Main "HOL-Library.Word" "HOL-Library.Monad_Syntax"
begin

section \<open>The collector of gc.cpp as state-passing functions\<close>

text \<open>
  Addresses and \<open>size_t\<close> values are 64-bit words: pointer comparison is unsigned word
  comparison and pointer arithmetic wraps around, as it does on the flat 64-bit targets
  the program is written for.  The null pointer is the word \<open>0\<close>.
\<close>

type_synonym addr = "64 word"

type_synonym size_t = "64 word"

text \<open>
  \<open>struct ObjectHeader { bool marked; size_t size; ObjectHeader* next; }\<close>.
  The fields \<open>size\<close> and \<open>next\<close> carry a suffix because both names are taken in
  Isabelle/HOL.
\<close>

record ObjectHeader =
  marked :: bool
  size_h :: size_t
  next_h :: addr

text \<open>
  \<open>sizeof(ObjectHeader)\<close> under the LP64 data model (one byte of flag, seven bytes of
  padding, two 8-byte fields), and the width of a \<open>void*\<close>, the step of the scanning loop.
\<close>

definition sizeof_ObjectHeader :: size_t where
  "sizeof_ObjectHeader = 24"

definition sizeof_ptr :: size_t where
  "sizeof_ptr = 8"

text \<open>The calls that leave the program: \<open>malloc\<close>, \<open>free\<close> and the line printed by the sweep.\<close>

datatype event = Malloc size_t | Free addr | Print size_t

text \<open>
  The state of the program.  \<open>heap_start\<close> and \<open>stack_bottom\<close> are the two globals.
  \<open>objects\<close> holds the header stored at each address that \<open>malloc\<close> has handed out and
  \<open>free\<close> has not taken back; reading a header anywhere else has no defined result.
  \<open>mem\<close> is the pointer-sized word that a scan loads from an address of the stack or of a
  data region.  No function of the program writes one of these words, and the frames of
  the marking functions lie outside the scanned part of the stack, so \<open>mem\<close> stays as it
  is during a collection.  Headers are kept apart from \<open>mem\<close>: a scan is taken not to
  load a word that overlaps a header.  \<open>trace\<close> lists the external calls made so far,
  oldest first.

  A function that can run forever or read a header where none is stored returns an
  \<open>option\<close>: \<open>None\<close> stands for both, \<open>Some\<close> for a run that returns.
\<close>

record gc_state =
  heap_start :: addr
  stack_bottom :: addr
  objects :: "addr \<rightharpoonup> ObjectHeader"
  mem :: "addr \<Rightarrow> addr"
  trace :: "event list"

subsection \<open>GC_init\<close>

text \<open>The argument is the address of the local variable \<open>dummy\<close>.\<close>

definition GC_init :: "addr \<Rightarrow> gc_state \<Rightarrow> gc_state" where
  "GC_init dummy s = s\<lparr>stack_bottom := dummy\<rparr>"

subsection \<open>get_header_from_data_ptr\<close>

text \<open>
  The \<open>for\<close> loop over the list, started at \<open>p\<close>.  A result \<open>None\<close> stands for a run that
  does not return (a cyclic list) or that reads a header where there is none.
\<close>

partial_function (option) get_header_loop :: "gc_state \<Rightarrow> addr \<Rightarrow> addr \<Rightarrow> addr option" where
  "get_header_loop s ptr p =
     (if p = 0 then Some 0
      else case objects s p of
        None \<Rightarrow> None
      | Some h \<Rightarrow>
          (let obj_start = p + sizeof_ObjectHeader;
               obj_end = obj_start + size_h h
           in if ptr \<ge> obj_start \<and> ptr < obj_end then Some p
              else get_header_loop s ptr (next_h h)))"

definition get_header_from_data_ptr :: "gc_state \<Rightarrow> addr \<Rightarrow> addr option" where
  "get_header_from_data_ptr s ptr = get_header_loop s ptr (heap_start s)"

subsection \<open>gc_mark_object and gc_mark_from_region\<close>

text \<open>
  The two functions call each other, so they are one recursive function on a tagged
  argument: \<open>Inl ptr\<close> is the call \<open>gc_mark_object(ptr)\<close>, and \<open>Inr (p, end)\<close> is the loop of
  \<open>gc_mark_from_region\<close> standing at \<open>p\<close>.
\<close>

definition set_marked :: "addr \<Rightarrow> bool \<Rightarrow> gc_state \<Rightarrow> gc_state" where
  "set_marked a v s =
     (case objects s a of
        None \<Rightarrow> s
      | Some h \<Rightarrow> s\<lparr>objects := (objects s)(a \<mapsto> h\<lparr>marked := v\<rparr>)\<rparr>)"

partial_function (option) gc_mark_rec :: "gc_state \<Rightarrow> addr + addr \<times> addr \<Rightarrow> gc_state option" where
  "gc_mark_rec s c =
     (case c of
        Inl ptr \<Rightarrow>
          if ptr = 0 then Some s
          else do {
            header \<leftarrow> get_header_from_data_ptr s ptr;
            if header = 0 then Some s
            else do {
              h \<leftarrow> objects s header;
              if marked h then Some s
              else gc_mark_rec (set_marked header True s)
                     (Inr (header + sizeof_ObjectHeader,
                           header + sizeof_ObjectHeader + size_h h))
            }
          }
      | Inr (p, end) \<Rightarrow>
          if p < end then do {
            s' \<leftarrow> gc_mark_rec s (Inl (mem s p));
            gc_mark_rec s' (Inr (p + sizeof_ptr, end))
          }
          else Some s)"

definition gc_mark_object :: "gc_state \<Rightarrow> addr \<Rightarrow> gc_state option" where
  "gc_mark_object s ptr = gc_mark_rec s (Inl ptr)"

definition gc_mark_from_region :: "gc_state \<Rightarrow> addr \<Rightarrow> addr \<Rightarrow> gc_state option" where
  "gc_mark_from_region s start end = gc_mark_rec s (Inr (start, end))"

subsection \<open>gc_mark\<close>

text \<open>
  \<open>stack_top\<close> is the address of the local variable of \<open>gc_mark\<close>.  The two bounds are put
  in order before the scan.
\<close>

definition gc_mark :: "addr \<Rightarrow> gc_state \<Rightarrow> gc_state option" where
  "gc_mark stack_top s =
     (let start = stack_top; end = stack_bottom s
      in if start > end then gc_mark_from_region s end start
         else gc_mark_from_region s start end)"

subsection \<open>gc_sweep\<close>

text \<open>
  The cursor \<open>ObjectHeader** p\<close> points either at the global \<open>heap_start\<close> or at the
  \<open>next\<close> field of a header.
\<close>

datatype link = Head | Next addr

definition load_link :: "gc_state \<Rightarrow> link \<Rightarrow> addr option" where
  "load_link s p =
     (case p of
        Head \<Rightarrow> Some (heap_start s)
      | Next a \<Rightarrow> map_option next_h (objects s a))"

definition store_link :: "link \<Rightarrow> addr \<Rightarrow> gc_state \<Rightarrow> gc_state" where
  "store_link p v s =
     (case p of
        Head \<Rightarrow> s\<lparr>heap_start := v\<rparr>
      | Next a \<Rightarrow>
          (case objects s a of
             None \<Rightarrow> s
           | Some h \<Rightarrow> s\<lparr>objects := (objects s)(a \<mapsto> h\<lparr>next_h := v\<rparr>)\<rparr>))"

definition emit :: "event \<Rightarrow> gc_state \<Rightarrow> gc_state" where
  "emit e s = s\<lparr>trace := trace s @ [e]\<rparr>"

definition free :: "addr \<Rightarrow> gc_state \<Rightarrow> gc_state" where
  "free a s = emit (Free a) (s\<lparr>objects := (objects s)(a := None)\<rparr>)"

partial_function (option) gc_sweep_loop :: "gc_state \<Rightarrow> link \<Rightarrow> gc_state option" where
  "gc_sweep_loop s p =
     do {
       current \<leftarrow> load_link s p;
       if current = 0 then Some s
       else do {
         h \<leftarrow> objects s current;
         if marked h then gc_sweep_loop (set_marked current False s) (Next current)
         else gc_sweep_loop (free current (emit (Print (size_h h)) (store_link p (next_h h) s))) p
       }
     }"

definition gc_sweep :: "gc_state \<Rightarrow> gc_state option" where
  "gc_sweep s = gc_sweep_loop s Head"

subsection \<open>gc_collect\<close>

definition gc_collect :: "addr \<Rightarrow> gc_state \<Rightarrow> gc_state option" where
  "gc_collect stack_top s = do { s' \<leftarrow> gc_mark stack_top s; gc_sweep s' }"

subsection \<open>GC_malloc\<close>

text \<open>
  \<open>r1\<close> and \<open>r2\<close> are what the system allocator answers to the first and to the second
  call of \<open>malloc\<close> (null for a failure); the second is asked only after the first has
  failed.  \<open>stack_top\<close> is passed on to the collection.  The result is the returned
  pointer and the new state.
\<close>

definition init_header :: "addr \<Rightarrow> size_t \<Rightarrow> gc_state \<Rightarrow> addr \<times> gc_state" where
  "init_header header sz s =
     (header + sizeof_ObjectHeader,
      s\<lparr>objects := (objects s)(header \<mapsto> \<lparr>marked = False, size_h = sz, next_h = heap_start s\<rparr>),
        heap_start := header\<rparr>)"

definition GC_malloc :: "addr \<Rightarrow> addr \<Rightarrow> addr \<Rightarrow> gc_state \<Rightarrow> size_t \<Rightarrow> (addr \<times> gc_state) option" where
  "GC_malloc r1 r2 stack_top s sz =
     (let total_size = sizeof_ObjectHeader + sz;
          s1 = emit (Malloc total_size) s
      in if r1 = 0 then do {
           s2 \<leftarrow> gc_collect stack_top s1;
           let s3 = emit (Malloc total_size) s2;
           if r2 = 0 then Some (0, s3)
           else Some (init_header r2 sz s3)
         }
         else Some (init_header r1 sz s1))"

section \<open>Notions used to state the properties\<close>

subsection \<open>The registry as a list\<close>

text \<open>
  \<open>chain s p xs\<close>: following the \<open>next\<close> fields from the pointer \<open>p\<close> visits the
  headers \<open>xs\<close>, in this order, and then meets the null pointer.  Each of them is a
  header of the store.
\<close>

primrec chain :: "gc_state \<Rightarrow> addr \<Rightarrow> addr list \<Rightarrow> bool" where
  "chain s p [] \<longleftrightarrow> p = 0"
| "chain s p (x # xs) \<longleftrightarrow>
     p = x \<and> x \<noteq> 0 \<and> (case objects s x of None \<Rightarrow> False | Some h \<Rightarrow> chain s (next_h h) xs)"

text \<open>
  \<open>registry s xs\<close>: the list that \<open>heap_start\<close> points to is \<open>xs\<close>.  Every state
  that \<open>GC_malloc\<close> and \<open>gc_sweep\<close> build from the empty list has such a list; a cyclic
  or dangling \<open>next\<close> field has none.
\<close>

definition registry :: "gc_state \<Rightarrow> addr list \<Rightarrow> bool" where
  "registry s xs = chain s (heap_start s) xs"

text \<open>
  The pointer that stands for a list: its first header, or null for the empty list.
\<close>

fun hd0 :: "addr list \<Rightarrow> addr" where
  "hd0 [] = 0"
| "hd0 (x # xs) = x"

subsection \<open>Containment\<close>

text \<open>
  The data pointer of a block, \<open>(void*)(header + 1)\<close>.
\<close>

definition data_start :: "addr \<Rightarrow> addr" where
  "data_start b = b + sizeof_ObjectHeader"

text \<open>
  The test that the loop of \<open>get_header_from_data_ptr\<close> makes for the header \<open>b\<close>.
\<close>

definition contains :: "gc_state \<Rightarrow> addr \<Rightarrow> addr \<Rightarrow> bool" where
  "contains s ptr b =
     (case objects s b of
        None \<Rightarrow> False
      | Some h \<Rightarrow> b + sizeof_ObjectHeader \<le> ptr \<and> ptr < b + sizeof_ObjectHeader + size_h h)"

text \<open>
  The first header of a list that passes the test, or null.
\<close>

fun owner :: "gc_state \<Rightarrow> addr \<Rightarrow> addr list \<Rightarrow> addr" where
  "owner s ptr [] = 0"
| "owner s ptr (b # bs) = (if contains s ptr b then b else owner s ptr bs)"

text \<open>
  The \<open>size\<close> field of the header at an address.
\<close>

definition size_of :: "gc_state \<Rightarrow> addr \<Rightarrow> size_t" where
  "size_of s a = (case objects s a of None \<Rightarrow> 0 | Some h \<Rightarrow> size_h h)"

text \<open>
  The data region of a block as the integer interval from \<open>data_start\<close> up to, and
  without, \<open>data_start + size\<close>, the sum taken in the integers.
\<close>

definition data_range :: "gc_state \<Rightarrow> addr \<Rightarrow> nat set" where
  "data_range s b =
     (case objects s b of
        None \<Rightarrow> {}
      | Some h \<Rightarrow> {unat (data_start b) ..< unat (data_start b) + unat (size_h h)})"

text \<open>
  The data region lies inside the address space and its end pointer is larger than every
  address of it: the integer \<open>data_start + size\<close> is below \<open>2 ^ 64\<close>.
\<close>

definition fits :: "gc_state \<Rightarrow> addr \<Rightarrow> bool" where
  "fits s b =
     (case objects s b of
        None \<Rightarrow> False
      | Some h \<Rightarrow> unat (data_start b) + unat (size_h h) < 2 ^ 64)"

text \<open>
  No two blocks of the list whose data regions lie inside the address space share an
  address of these regions.
\<close>

definition no_overlap :: "gc_state \<Rightarrow> addr list \<Rightarrow> bool" where
  "no_overlap s xs \<longleftrightarrow>
     (\<forall>b\<in>set xs. \<forall>c\<in>set xs.
        b \<noteq> c \<longrightarrow> fits s b \<longrightarrow> fits s c \<longrightarrow> data_range s b \<inter> data_range s c = {})"

subsection \<open>Mark bits\<close>

text \<open>
  The mark bit of the header at an address (false where there is no header).
\<close>

definition is_marked :: "gc_state \<Rightarrow> addr \<Rightarrow> bool" where
  "is_marked s b = (case objects s b of None \<Rightarrow> False | Some h \<Rightarrow> marked h)"

text \<open>
  No block of the list is marked: the state of the registry between two collections.
\<close>

definition all_unmarked :: "gc_state \<Rightarrow> addr list \<Rightarrow> bool" where
  "all_unmarked s xs = list_all (\<lambda>b. \<not> is_marked s b) xs"

text \<open>
  The state with the mark bit set in every header at an address of \<open>M\<close>; nothing else
  changes.
\<close>

definition mark_all :: "addr set \<Rightarrow> gc_state \<Rightarrow> gc_state" where
  "mark_all M s =
     s\<lparr>objects := (\<lambda>a. if a \<in> M then map_option (\<lambda>h. h\<lparr>marked := True\<rparr>) (objects s a)
                        else objects s a)\<rparr>"

subsection \<open>The words that the scans load and the blocks that marking finds\<close>

text \<open>
  The addresses that the loop \<open>for (p = start; p < end; ++p)\<close> of
  \<open>gc_mark_from_region\<close> loads from, listed while the cursor has not wrapped around.
\<close>

function words_of :: "addr \<Rightarrow> addr \<Rightarrow> addr list" where
  "words_of p e = (if p < e \<and> p \<le> p + sizeof_ptr then p # words_of (p + sizeof_ptr) e else [])"
  by pat_completeness auto
termination
proof (relation "measure (\<lambda>(p, e). unat e - unat p)")
  show "wf (measure (\<lambda>(p, e). unat e - unat p))" by simp
next
  fix p e :: addr
  assume a: "p < e \<and> p \<le> p + sizeof_ptr"
  have "p \<noteq> p + sizeof_ptr" by (simp add: sizeof_ptr_def)
  with a have "p < p + sizeof_ptr" by (simp add: order_less_le)
  with a have "unat p < unat (p + sizeof_ptr)" "unat p < unat e"
    by (simp_all add: word_less_nat_alt)
  then show "((p + sizeof_ptr, e), (p, e)) \<in> measure (\<lambda>(p, e). unat e - unat p)"
    by simp
qed

declare words_of.simps [simp del]

text \<open>
  The end of a scanned region does not lie in the last word of the address space.  Then the
  cursor passes the end before it can wrap around, and the loop stops.
\<close>

definition end_ok :: "addr \<Rightarrow> bool" where
  "end_ok e \<longleftrightarrow> unat e + unat sizeof_ptr \<le> 2 ^ 64"

text \<open>
  Every block of the list has such an end of its data region.
\<close>

definition scan_ok :: "gc_state \<Rightarrow> addr list \<Rightarrow> bool" where
  "scan_ok s xs =
     list_all (\<lambda>b. case objects s b of
                      None \<Rightarrow> True
                    | Some h \<Rightarrow> end_ok (b + sizeof_ObjectHeader + size_h h)) xs"

text \<open>
  The same for the stack: the larger of the two bounds is the end of the scan.
\<close>

definition stack_ok :: "addr \<Rightarrow> gc_state \<Rightarrow> bool" where
  "stack_ok stack_top s = end_ok (max stack_top (stack_bottom s))"

text \<open>
  The word \<open>w\<close>, read as a pointer, is not null and the lookup answers the header \<open>b\<close>.
\<close>

definition refers :: "gc_state \<Rightarrow> addr \<Rightarrow> addr \<Rightarrow> bool" where
  "refers s w b \<longleftrightarrow> w \<noteq> 0 \<and> b \<noteq> 0 \<and> get_header_from_data_ptr s w = Some b"

text \<open>
  The words that a scan of the data region of the block \<open>b\<close> loads.
\<close>

definition data_words :: "gc_state \<Rightarrow> addr \<Rightarrow> addr set" where
  "data_words s b =
     (case objects s b of
        None \<Rightarrow> {}
      | Some h \<Rightarrow> mem s ` set (words_of (b + sizeof_ObjectHeader) (b + sizeof_ObjectHeader + size_h h)))"

text \<open>
  The blocks that marking finds from a set \<open>W\<close> of words: those the lookup answers for
  a word of \<open>W\<close>, and those it answers for a word that the scan of such a block loads.
  This follows the collector, word by word: a pointer that no scan loads, or for which the
  lookup answers null, leads to no block here, wherever it is stored.
\<close>

inductive_set reach :: "gc_state \<Rightarrow> addr set \<Rightarrow> addr set" for s :: gc_state and W :: "addr set" where
  root: "w \<in> W \<Longrightarrow> refers s w b \<Longrightarrow> b \<in> reach s W"
| step: "b \<in> reach s W \<Longrightarrow> w \<in> data_words s b \<Longrightarrow> refers s w c \<Longrightarrow> c \<in> reach s W"

text \<open>
  The words that the scan of the stack loads: those at the lower of \<open>stack_top\<close> and
  \<open>stack_bottom\<close>, at 8 bytes above it, and so on, below the higher of the two.  A word
  of the stack at an address between two of these is not among them.
\<close>

definition root_words :: "addr \<Rightarrow> gc_state \<Rightarrow> addr set" where
  "root_words stack_top s =
     mem s ` set (words_of (min stack_top (stack_bottom s)) (max stack_top (stack_bottom s)))"

subsection \<open>What the two phases achieve\<close>

text \<open>
  The number of blocks of the list that are not marked: the measure that decreases along
  the recursion of \<open>gc_mark_object\<close>.
\<close>

definition todo :: "gc_state \<Rightarrow> addr list \<Rightarrow> nat" where
  "todo s xs = length (filter (\<lambda>b. \<not> is_marked s b) xs)"

text \<open>
  What marking from the words \<open>W\<close> achieves, as a relation between the state before
  and the state after: only mark bits of so far unmarked blocks of the list are set; every
  block a word of \<open>W\<close> refers to is marked afterwards; so is every block that a newly
  marked block refers to; and every newly marked block is in \<open>reach s W\<close>.
\<close>

definition mark_post :: "gc_state \<Rightarrow> addr list \<Rightarrow> addr set \<Rightarrow> gc_state \<Rightarrow> bool" where
  "mark_post s xs W s' \<longleftrightarrow>
     (\<exists>M. s' = mark_all M s \<and> M \<subseteq> set xs \<and> (\<forall>b\<in>M. \<not> is_marked s b) \<and>
          (\<forall>w\<in>W. \<forall>b. refers s w b \<longrightarrow> is_marked s' b) \<and>
          (\<forall>b\<in>M. \<forall>w\<in>data_words s b. \<forall>c. refers s w c \<longrightarrow> is_marked s' c) \<and>
          M \<subseteq> reach s W)"

text \<open>
  The external calls of a sweep over the list: for each unmarked block the printed size,
  then the call of \<open>free\<close>.
\<close>

definition sweep_events :: "gc_state \<Rightarrow> addr list \<Rightarrow> event list" where
  "sweep_events s xs = concat (map (\<lambda>a. [Print (size_of s a), Free a]) (filter (\<lambda>a. \<not> is_marked s a) xs))"

text \<open>
  What the loop of \<open>gc_sweep\<close> achieves when its cursor \<open>p\<close> points to the list \<open>xs\<close>:
  the cursor now points to the marked blocks of \<open>xs\<close>, in the old order; each of them
  has kept its header but for the mark bit, now clear, and the \<open>next\<close> field; the
  unmarked blocks of \<open>xs\<close> have no header any more; no other header and no scanned word
  has changed.
\<close>

definition sweep_post :: "gc_state \<Rightarrow> link \<Rightarrow> addr list \<Rightarrow> gc_state \<Rightarrow> bool" where
  "sweep_post s p xs s' \<longleftrightarrow>
     chain s' (hd0 (filter (is_marked s) xs)) (filter (is_marked s) xs) \<and>
     mem s' = mem s \<and> stack_bottom s' = stack_bottom s \<and>
     trace s' = trace s @ sweep_events s xs \<and>
     (case p of
        Head \<Rightarrow> heap_start s' = hd0 (filter (is_marked s) xs)
      | Next a \<Rightarrow> heap_start s' = heap_start s \<and>
          (\<exists>h. objects s a = Some h \<and> objects s' a = Some (h\<lparr>next_h := hd0 (filter (is_marked s) xs)\<rparr>))) \<and>
     (\<forall>a. a \<notin> set xs \<longrightarrow> p \<noteq> Next a \<longrightarrow> objects s' a = objects s a) \<and>
     (\<forall>a\<in>set xs. \<forall>h. objects s a = Some h \<longrightarrow>
        (if marked h then \<exists>n. objects s' a = Some (h\<lparr>marked := False, next_h := n\<rparr>)
         else objects s' a = None))"

text \<open>
  The calls of \<open>malloc\<close> among the events.
\<close>

definition is_Malloc :: "event \<Rightarrow> bool" where
  "is_Malloc e = (case e of Malloc n \<Rightarrow> True | _ \<Rightarrow> False)"

subsection \<open>The answers of the system allocator and the layout of the heap\<close>

text \<open>
  A header at \<open>r\<close> lies inside the address space, so that \<open>header + 1\<close> does not wrap
  around to the null pointer.
\<close>

definition header_ok :: "addr \<Rightarrow> bool" where
  "header_ok r \<longleftrightarrow> unat r + unat sizeof_ObjectHeader < 2 ^ 64"


text \<open>
  The memory that the system allocator handed out for a block: the header and the data
  region, as an integer interval.
\<close>

definition chunk :: "gc_state \<Rightarrow> addr \<Rightarrow> nat set" where
  "chunk s b =
     (case objects s b of
        None \<Rightarrow> {}
      | Some h \<Rightarrow> {unat b ..< unat b + unat sizeof_ObjectHeader + unat (size_h h)})"

text \<open>
  The chunk of a block, and one word more, lies inside the address space.
\<close>

definition chunk_ok :: "gc_state \<Rightarrow> addr \<Rightarrow> bool" where
  "chunk_ok s b =
     (case objects s b of
        None \<Rightarrow> False
      | Some h \<Rightarrow> unat b + unat sizeof_ObjectHeader + unat (size_h h) + unat sizeof_ptr \<le> 2 ^ 64)"

text \<open>
  The chunks of the list lie inside the address space and are pairwise disjoint: what
  \<open>malloc\<close> promises for live allocations.
\<close>

definition layout_ok :: "gc_state \<Rightarrow> addr list \<Rightarrow> bool" where
  "layout_ok s xs \<longleftrightarrow>
     list_all (chunk_ok s) xs \<and>
     (\<forall>b\<in>set xs. \<forall>c\<in>set xs. b \<noteq> c \<longrightarrow> chunk s b \<inter> chunk s c = {})"

text \<open>
  The promise of \<open>malloc\<close> for a non-null answer \<open>r\<close> to a request of \<open>n\<close> bytes: no
  live header at \<open>r\<close>, and \<open>n\<close> bytes from \<open>r\<close> on that lie inside the address space
  and overlap no live chunk.
\<close>

definition malloc_ok :: "gc_state \<Rightarrow> addr list \<Rightarrow> size_t \<Rightarrow> addr \<Rightarrow> bool" where
  "malloc_ok s xs n r \<longleftrightarrow>
     objects s r = None \<and> unat r + unat n + unat sizeof_ptr \<le> 2 ^ 64 \<and>
     (\<forall>b\<in>set xs. chunk s b \<inter> {unat r ..< unat r + unat n} = {})"

text \<open>
  The invariant of the program between two calls of \<open>GC_malloc\<close>.
\<close>

definition heap_inv :: "gc_state \<Rightarrow> addr list \<Rightarrow> bool" where
  "heap_inv s xs \<longleftrightarrow> registry s xs \<and> all_unmarked s xs \<and> layout_ok s xs"

subsection \<open>An example heap\<close>

text \<open>
  Four blocks, newest first: an empty block at \<open>0x4000\<close>, a block of 16 bytes at
  \<open>0x3000\<close> that nothing refers to, a block of 8 bytes at \<open>0x2000\<close> and a block of 8
  bytes at \<open>0x1000\<close>.  The scanned stack is the two words at \<open>0x70F0\<close> and
  \<open>0x70F8\<close>: the first points into the block at \<open>0x2000\<close>, the second is the data
  pointer of the empty block.  The data word of the block at \<open>0x2000\<close> points into the
  block at \<open>0x1000\<close>, whose own data word points back into itself.
\<close>

definition ex_heap :: gc_state where
  "ex_heap =
     \<lparr>heap_start = 0x4000, stack_bottom = 0x7100,
      objects = [0x4000 \<mapsto> \<lparr>marked = False, size_h = 0, next_h = 0x3000\<rparr>,
                 0x3000 \<mapsto> \<lparr>marked = False, size_h = 16, next_h = 0x2000\<rparr>,
                 0x2000 \<mapsto> \<lparr>marked = False, size_h = 8, next_h = 0x1000\<rparr>,
                 0x1000 \<mapsto> \<lparr>marked = False, size_h = 8, next_h = 0\<rparr>],
      mem = (\<lambda>a. 0)(0x70F0 := 0x2018, 0x70F8 := 0x4018, 0x2018 := 0x1018, 0x1018 := 0x1018),
      trace = []\<rparr>"

definition ex_blocks :: "addr list" where
  "ex_blocks = [0x4000, 0x3000, 0x2000, 0x1000]"

definition ex_top :: addr where
  "ex_top = 0x70F0"

definition ex_marked :: gc_state where
  "ex_marked = mark_all {0x2000, 0x1000} ex_heap"

subsection \<open>A stack slot between two scanned words\<close>

text \<open>
  Two blocks of 8 bytes, at \<open>0x2000\<close> and at \<open>0x1000\<close>.  The stack lies between
  \<open>0x7FF84\<close>, the address of the \<open>int\<close> variable \<open>dummy\<close> of \<open>gc_mark\<close>, a
  multiple of 4 and not of 8, and \<open>0x7FFBC\<close>.  The stack slot at \<open>0x7FFB0\<close>, a
  multiple of 8 inside these bounds, holds the data pointer \<open>0x2018\<close> of the first block,
  and the data word of the first block holds the data pointer \<open>0x1018\<close> of the second.
  The scan loads the words at \<open>0x7FF84\<close>, \<open>0x7FF8C\<close>, ..., \<open>0x7FFAC\<close>,
  \<open>0x7FFB4\<close>; the word at \<open>0x7FFAC\<close> is what an unaligned little-endian load reads
  there, the upper half of a zero slot and the lower half of the slot at \<open>0x7FFB0\<close>.
\<close>

definition ex_live :: gc_state where
  "ex_live =
     \<lparr>heap_start = 0x2000, stack_bottom = 0x7FFBC,
      objects = [0x2000 \<mapsto> \<lparr>marked = False, size_h = 8, next_h = 0x1000\<rparr>,
                 0x1000 \<mapsto> \<lparr>marked = False, size_h = 8, next_h = 0\<rparr>],
      mem = (\<lambda>a. 0)(0x7FFB0 := 0x2018, 0x7FFAC := 0x201800000000, 0x2018 := 0x1018),
      trace = []\<rparr>"

definition ex_live_top :: addr where
  "ex_live_top = 0x7FF84"

subsection \<open>A request that overflows\<close>

text \<open>
  \<open>ex_empty\<close> is a state with an empty registry.  \<open>ex_ghost\<close> is the state that
  \<open>GC_malloc\<close> builds from it for a request of \<open>2 ^ 64 - 1\<close> bytes when \<open>malloc\<close>
  answers \<open>0x5000\<close>: the request to \<open>malloc\<close> is 23 bytes, the size field of the new
  header is \<open>2 ^ 64 - 1\<close>.  In \<open>ex_ghost_rooted\<close> the caller has stored the returned
  pointer \<open>0x5018\<close> in the stack word at \<open>0x70F0\<close>.
\<close>

definition ex_empty :: gc_state where
  "ex_empty =
     \<lparr>heap_start = 0, stack_bottom = 0x7100, objects = Map.empty, mem = (\<lambda>a. 0), trace = []\<rparr>"

definition ex_ghost :: gc_state where
  "ex_ghost =
     \<lparr>heap_start = 0x5000, stack_bottom = 0x7100,
      objects = [0x5000 \<mapsto> \<lparr>marked = False, size_h = - 1, next_h = 0\<rparr>],
      mem = (\<lambda>a. 0), trace = [Malloc 23]\<rparr>"

definition ex_ghost_rooted :: gc_state where
  "ex_ghost_rooted = ex_ghost\<lparr>mem := (\<lambda>a. 0)(0x70F0 := 0x5018)\<rparr>"

section \<open>Auxiliary facts\<close>

subsection \<open>The list behind a pointer\<close>

lemma chain_unique: "chain s p xs \<Longrightarrow> chain s p ys \<Longrightarrow> xs = ys"
proof (induction xs arbitrary: p ys)
  case Nil
  then show ?case by (cases ys) auto
next
  case (Cons x xs)
  then show ?case by (cases ys) (auto split: option.splits)
qed

lemma chain_suffix:
  "chain s p (as @ x # bs) \<Longrightarrow> chain s x (x # bs)"
proof (induction as arbitrary: p)
  case Nil
  then show ?case by simp
next
  case (Cons a as)
  from Cons.prems obtain h :: ObjectHeader where "chain s (next_h h) (as @ x # bs)"
    by (auto split: option.splits)
  then show ?case by (rule Cons.IH)
qed

lemma chain_head_notin:
  assumes "chain s p (x # xs)" shows "x \<notin> set xs"
proof
  assume "x \<in> set xs"
  then obtain as bs where xs: "xs = as @ x # bs" by (auto simp: in_set_conv_decomp)
  from assms obtain h where h: "objects s x = Some h" "chain s (next_h h) xs"
    by (auto split: option.splits)
  from h(2) xs have "chain s x (x # bs)" using chain_suffix by blast
  with h(1) have "chain s (next_h h) bs" by simp
  with h(2) have "xs = bs" by (rule chain_unique)
  with xs show False by simp
qed

lemma chain_distinct: "chain s p xs \<Longrightarrow> distinct xs"
proof (induction xs arbitrary: p)
  case Nil
  show ?case by simp
next
  case (Cons x xs)
  from Cons.prems have "x \<notin> set xs" by (rule chain_head_notin)
  moreover from Cons.prems Cons.IH have "distinct xs" by (auto split: option.splits)
  ultimately show ?case by simp
qed

lemma chain_nonnull: "chain s p xs \<Longrightarrow> 0 \<notin> set xs"
  by (induction xs arbitrary: p) (auto split: option.splits)

lemma chain_present: "chain s p xs \<Longrightarrow> x \<in> set xs \<Longrightarrow> \<exists>h. objects s x = Some h"
  by (induction xs arbitrary: p) (auto split: option.splits)

subsection \<open>The lookup on a registry\<close>

lemma get_header_loop_chain:
  "chain s p xs \<Longrightarrow> get_header_loop s ptr p = Some (owner s ptr xs)"
proof (induction xs arbitrary: p)
  case Nil
  then show ?case by (simp add: get_header_loop.simps)
next
  case (Cons x xs)
  then obtain h where h: "objects s x = Some h" "chain s (next_h h) xs" and px: "p = x" "x \<noteq> 0"
    by (auto split: option.splits)
  from Cons.IH [OF h(2)] h(1) px show ?case
    by (subst get_header_loop.simps) (simp add: contains_def Let_def)
qed

lemma get_header_registry:
  "registry s xs \<Longrightarrow> get_header_from_data_ptr s ptr = Some (owner s ptr xs)"
  by (simp add: registry_def get_header_from_data_ptr_def get_header_loop_chain)

lemma owner_cases: "owner s ptr xs = 0 \<or> (owner s ptr xs \<in> set xs \<and> contains s ptr (owner s ptr xs))"
  by (induction xs) auto

subsection \<open>Setting mark bits changes nothing else\<close>

lemma mark_all_simps [simp]:
  "heap_start (mark_all M s) = heap_start s"
  "stack_bottom (mark_all M s) = stack_bottom s"
  "mem (mark_all M s) = mem s"
  "trace (mark_all M s) = trace s"
  by (simp_all add: mark_all_def)

lemma mark_all_empty [simp]: "mark_all {} s = s"
  by (simp add: mark_all_def)

lemma mark_all_mark_all: "mark_all N (mark_all M s) = mark_all (M \<union> N) s"
  by (auto simp: mark_all_def fun_eq_iff option.map_comp comp_def split: option.splits)

lemma set_marked_True: "set_marked b True s = mark_all {b} s"
  by (auto simp: set_marked_def mark_all_def fun_eq_iff split: option.splits)

lemma objects_mark_all:
  "objects (mark_all M s) a = (if a \<in> M then map_option (\<lambda>h. h\<lparr>marked := True\<rparr>) (objects s a) else objects s a)"
  by (simp add: mark_all_def)

lemma is_marked_mark_all:
  "is_marked (mark_all M s) b \<longleftrightarrow> is_marked s b \<or> (b \<in> M \<and> objects s b \<noteq> None)"
  by (auto simp: is_marked_def objects_mark_all split: option.splits)

lemma chain_mark_all [simp]: "chain (mark_all M s) p xs = chain s p xs"
  by (induction xs arbitrary: p) (auto simp: objects_mark_all split: option.splits)

lemma registry_mark_all [simp]: "registry (mark_all M s) xs = registry s xs"
  by (simp add: registry_def)

lemma contains_mark_all [simp]: "contains (mark_all M s) ptr b = contains s ptr b"
  by (auto simp: contains_def objects_mark_all split: option.splits)

lemma owner_mark_all [simp]: "owner (mark_all M s) ptr xs = owner s ptr xs"
  by (induction xs) auto

lemma refers_registry:
  "registry s xs \<Longrightarrow> refers s w b \<longleftrightarrow> w \<noteq> 0 \<and> b \<noteq> 0 \<and> owner s w xs = b"
  by (auto simp: refers_def get_header_registry)

lemma refers_mark_all:
  "registry s xs \<Longrightarrow> refers (mark_all M s) w b = refers s w b"
  by (simp add: refers_registry [of _ xs])

lemma data_words_mark_all [simp]: "data_words (mark_all M s) b = data_words s b"
  by (auto simp: data_words_def objects_mark_all split: option.splits)

lemma reach_mark_all:
  assumes "registry s xs"
  shows "reach (mark_all M s) W = reach s W"
proof (rule set_eqI, rule iffI)
  fix b assume "b \<in> reach (mark_all M s) W"
  then show "b \<in> reach s W"
    by induction (auto simp: refers_mark_all [OF assms] intro: reach.intros)
next
  fix b assume "b \<in> reach s W"
  then show "b \<in> reach (mark_all M s) W"
  proof induction
    case (root w b)
    then show ?case by (auto simp: refers_mark_all [OF assms] intro: reach.root)
  next
    case (step b w c)
    from step.IH show ?case
      by (rule reach.step [where w = w]) (use step.hyps in \<open>simp_all add: refers_mark_all [OF assms]\<close>)
  qed
qed

lemma refers_in_registry: "registry s xs \<Longrightarrow> refers s w b \<Longrightarrow> b \<in> set xs"
  using owner_cases [of s w xs] by (auto simp: refers_registry)

subsection \<open>The two marking functions\<close>

text \<open>
  The equations of \<open>gc_mark_from_region\<close> and \<open>gc_mark_object\<close>, as the source has
  them, from the joint recursive function.
\<close>

lemma gc_mark_from_region_step:
  "gc_mark_from_region s p e =
     (if p < e then gc_mark_object s (mem s p) \<bind> (\<lambda>s'. gc_mark_from_region s' (p + sizeof_ptr) e)
      else Some s)"
  unfolding gc_mark_from_region_def gc_mark_object_def
  by (subst gc_mark_rec.simps) simp

lemma gc_mark_object_step:
  "gc_mark_object s ptr =
     (if ptr = 0 then Some s
      else do {
        header \<leftarrow> get_header_from_data_ptr s ptr;
        if header = 0 then Some s
        else do {
          h \<leftarrow> objects s header;
          if marked h then Some s
          else gc_mark_from_region (set_marked header True s)
                 (header + sizeof_ObjectHeader) (header + sizeof_ObjectHeader + size_h h)
        }
      })"
  unfolding gc_mark_from_region_def gc_mark_object_def
  by (subst gc_mark_rec.simps) simp

subsection \<open>Marking returns\<close>

text \<open>
  The recursion of \<open>gc_mark_object\<close> ends because every call that goes on to scan has
  set a mark bit that was clear before: induction on the number of unmarked blocks, and
  inside it induction along the scanning loop.
\<close>

lemma words_of_step:
  assumes "end_ok e" "p < e"
  shows "words_of p e = p # words_of (p + sizeof_ptr) e"
proof -
  from assms have "unat p + unat sizeof_ptr < 2 ^ 64"
    by (simp add: end_ok_def word_less_nat_alt)
  then have "p \<le> p + sizeof_ptr" by (simp add: no_olen_add_nat)
  with assms(2) show ?thesis by (subst words_of.simps) simp
qed

lemma words_of_done: "\<not> p < e \<Longrightarrow> words_of p e = []"
  by (subst words_of.simps) simp

lemma scan_ok_mark_all [simp]: "scan_ok (mark_all M s) xs = scan_ok s xs"
  by (induction xs) (auto simp: scan_ok_def objects_mark_all split: option.splits)

lemma todo_mark_all_le: "todo (mark_all M s) xs \<le> todo s xs"
  unfolding todo_def
  by (induction xs) (auto simp: is_marked_mark_all)

lemma todo_mark_all_less:
  assumes "b \<in> set xs" "\<not> is_marked s b" "objects s b \<noteq> None" "b \<in> M"
  shows "todo (mark_all M s) xs < todo s xs"
  using assms(1)
proof (induction xs)
  case Nil
  then show ?case by simp
next
  case (Cons x xs)
  show ?case
  proof (cases "x = b")
    case True
    with assms todo_mark_all_le [of M s xs] show ?thesis
      by (auto simp: todo_def is_marked_mark_all)
  next
    case False
    with Cons have "todo (mark_all M s) xs < todo s xs" by simp
    then show ?thesis by (auto simp: todo_def is_marked_mark_all)
  qed
qed

lemma reach_mono: "W \<subseteq> W' \<Longrightarrow> reach s W \<subseteq> reach s W'"
proof
  fix b assume "W \<subseteq> W'" "b \<in> reach s W"
  from this(2) this(1) show "b \<in> reach s W'"
    by induction (auto intro: reach.intros)
qed

lemma mark_post_same:
  "\<forall>w\<in>W. \<forall>b. refers s w b \<longrightarrow> is_marked s b \<Longrightarrow> mark_post s xs W s"
  unfolding mark_post_def by (rule exI [of _ "{}"]) simp

lemma mark_post_trans:
  assumes reg: "registry s xs"
    and p1: "mark_post s xs W1 s1"
    and p2: "mark_post s1 xs W2 s2"
  shows "mark_post s xs (W1 \<union> W2) s2"
proof -
  from p1 obtain M1 where M1: "s1 = mark_all M1 s" "M1 \<subseteq> set xs" "\<forall>b\<in>M1. \<not> is_marked s b"
    "\<forall>w\<in>W1. \<forall>b. refers s w b \<longrightarrow> is_marked s1 b"
    "\<forall>b\<in>M1. \<forall>w\<in>data_words s b. \<forall>c. refers s w c \<longrightarrow> is_marked s1 c"
    "M1 \<subseteq> reach s W1"
    unfolding mark_post_def by blast
  from p2 obtain M2 where M2: "s2 = mark_all M2 s1" "M2 \<subseteq> set xs" "\<forall>b\<in>M2. \<not> is_marked s1 b"
    "\<forall>w\<in>W2. \<forall>b. refers s1 w b \<longrightarrow> is_marked s2 b"
    "\<forall>b\<in>M2. \<forall>w\<in>data_words s1 b. \<forall>c. refers s1 w c \<longrightarrow> is_marked s2 c"
    "M2 \<subseteq> reach s1 W2"
    unfolding mark_post_def by blast
  have rf: "refers s1 w b = refers s w b" for w b
    by (simp add: M1(1) refers_mark_all [OF reg])
  have dw: "data_words s1 b = data_words s b" for b
    by (simp add: M1(1))
  have rc: "reach s1 W2 = reach s W2"
    by (simp add: M1(1) reach_mark_all [OF reg])
  have mono: "is_marked s1 b \<Longrightarrow> is_marked s2 b" for b
    by (simp add: M2(1) is_marked_mark_all)
  have mono0: "is_marked s b \<Longrightarrow> is_marked s1 b" for b
    by (simp add: M1(1) is_marked_mark_all)
  have "s2 = mark_all (M1 \<union> M2) s"
    by (simp add: M1(1) M2(1) mark_all_mark_all)
  moreover have "M1 \<union> M2 \<subseteq> set xs" using M1(2) M2(2) by simp
  moreover have "\<forall>b\<in>M1 \<union> M2. \<not> is_marked s b"
    using M1(3) M2(3) mono0 by blast
  moreover have "\<forall>w\<in>W1 \<union> W2. \<forall>b. refers s w b \<longrightarrow> is_marked s2 b"
    using M1(4) M2(4) mono rf by blast
  moreover have "\<forall>b\<in>M1 \<union> M2. \<forall>w\<in>data_words s b. \<forall>c. refers s w c \<longrightarrow> is_marked s2 c"
    using M1(5) M2(5) mono rf dw by blast
  moreover have "M1 \<union> M2 \<subseteq> reach s (W1 \<union> W2)"
    using M1(6) M2(6) rc reach_mono [of W1 "W1 \<union> W2" s] reach_mono [of W2 "W1 \<union> W2" s]
    by blast
  ultimately show ?thesis unfolding mark_post_def by blast
qed

lemma mark_post_state:
  "mark_post s xs W s' \<Longrightarrow> registry s' xs = registry s xs \<and> scan_ok s' xs = scan_ok s xs \<and>
     todo s' xs \<le> todo s xs \<and> mem s' = mem s"
  unfolding mark_post_def by (auto simp: todo_mark_all_le)

lemma scan_from_object:
  assumes obj: "\<And>s ptr. registry s xs \<Longrightarrow> scan_ok s xs \<Longrightarrow> todo s xs \<le> n \<Longrightarrow>
                  \<exists>s'. gc_mark_object s ptr = Some s' \<and> mark_post s xs {ptr} s'"
  shows "end_ok e \<Longrightarrow> registry s xs \<Longrightarrow> scan_ok s xs \<Longrightarrow> todo s xs \<le> n \<Longrightarrow>
         \<exists>s'. gc_mark_from_region s p e = Some s' \<and> mark_post s xs (mem s ` set (words_of p e)) s'"
proof (induction p e arbitrary: s rule: words_of.induct)
  case (1 p e)
  show ?case
  proof (cases "p < e")
    case False
    then show ?thesis
      by (subst gc_mark_from_region_step) (simp add: words_of_done mark_post_same)
  next
    case True
    with \<open>end_ok e\<close> have w: "words_of p e = p # words_of (p + sizeof_ptr) e"
      by (simp add: words_of_step)
    then have guard: "p < e \<and> p \<le> p + sizeof_ptr"
      by (subst (asm) words_of.simps) (simp split: if_splits)
    from obj [OF "1.prems"(2,3,4)] obtain s1
      where s1: "gc_mark_object s (mem s p) = Some s1" "mark_post s xs {mem s p} s1"
      by blast
    from mark_post_state [OF s1(2)] "1.prems"
    have st: "registry s1 xs" "scan_ok s1 xs" "todo s1 xs \<le> n" "mem s1 = mem s"
      by simp_all
    from "1.IH" [OF guard \<open>end_ok e\<close> st(1,2,3)] obtain s2
      where s2: "gc_mark_from_region s1 (p + sizeof_ptr) e = Some s2"
        "mark_post s1 xs (mem s1 ` set (words_of (p + sizeof_ptr) e)) s2"
      by blast
    from mark_post_trans [OF "1.prems"(2) s1(2) s2(2)]
    have "mark_post s xs (mem s ` set (words_of p e)) s2"
      by (simp add: w st(4))
    moreover from True s1(1) s2(1) have "gc_mark_from_region s p e = Some s2"
      by (subst gc_mark_from_region_step) simp
    ultimately show ?thesis by blast
  qed
qed

lemma reach_data_words:
  assumes "b \<in> reach s W"
  shows "reach s (data_words s b) \<subseteq> reach s W"
proof
  fix c assume "c \<in> reach s (data_words s b)"
  then show "c \<in> reach s W"
  proof induction
    case (root w c)
    with assms show ?case by (blast intro: reach.step)
  next
    case (step c w d)
    then show ?case by (blast intro: reach.step)
  qed
qed

lemma scan_ok_end:
  "scan_ok s xs \<Longrightarrow> b \<in> set xs \<Longrightarrow> objects s b = Some h \<Longrightarrow>
   end_ok (b + sizeof_ObjectHeader + size_h h)"
  by (auto simp: scan_ok_def list_all_iff)

lemma mark_object_from_scan:
  assumes scan: "\<And>s p e. end_ok e \<Longrightarrow> registry s xs \<Longrightarrow> scan_ok s xs \<Longrightarrow> todo s xs < n \<Longrightarrow>
      \<exists>s'. gc_mark_from_region s p e = Some s' \<and> mark_post s xs (mem s ` set (words_of p e)) s'"
    and reg: "registry s xs" and ok: "scan_ok s xs" and n: "todo s xs \<le> n"
  shows "\<exists>s'. gc_mark_object s ptr = Some s' \<and> mark_post s xs {ptr} s'"
proof -
  define b where "b = owner s ptr xs"
  have look: "get_header_from_data_ptr s ptr = Some b"
    by (simp add: b_def get_header_registry [OF reg])
  have rf: "refers s ptr c \<longleftrightarrow> ptr \<noteq> 0 \<and> b \<noteq> 0 \<and> c = b" for c
    by (auto simp: refers_def look)
  show ?thesis
  proof (cases "ptr = 0 \<or> b = 0")
    case True
    then have "gc_mark_object s ptr = Some s"
      by (subst gc_mark_object_step) (auto simp: look)
    moreover from True have "mark_post s xs {ptr} s"
      by (intro mark_post_same) (auto simp: rf)
    ultimately show ?thesis by blast
  next
    case False
    then have "refers s ptr b" by (simp add: rf)
    with reg have bx: "b \<in> set xs" by (rule refers_in_registry)
    with reg obtain h :: ObjectHeader where h: "objects s b = Some h"
      unfolding registry_def using chain_present by blast
    show ?thesis
    proof (cases "marked h")
      case True
      with False h have "gc_mark_object s ptr = Some s"
        by (subst gc_mark_object_step) (simp add: look)
      moreover from True h have "mark_post s xs {ptr} s"
        by (intro mark_post_same) (auto simp: rf is_marked_def)
      ultimately show ?thesis by blast
    next
      case unmarked: False
      define s1 where "s1 = mark_all {b} s"
      define e where "e = b + sizeof_ObjectHeader + size_h h"
      from unmarked h have nb: "\<not> is_marked s b" by (simp add: is_marked_def)
      from False unmarked h
      have step: "gc_mark_object s ptr = gc_mark_from_region s1 (b + sizeof_ObjectHeader) e"
        by (subst gc_mark_object_step) (simp add: look set_marked_True s1_def e_def)
      from todo_mark_all_less [OF bx nb, of "{b}"] h n have "todo s1 xs < n"
        by (simp add: s1_def)
      moreover from ok bx h have "end_ok e" unfolding e_def by (rule scan_ok_end)
      moreover have "registry s1 xs" "scan_ok s1 xs" using reg ok by (simp_all add: s1_def)
      ultimately obtain s2
        where s2: "gc_mark_from_region s1 (b + sizeof_ObjectHeader) e = Some s2"
          "mark_post s1 xs (mem s1 ` set (words_of (b + sizeof_ObjectHeader) e)) s2"
        using scan by blast
      have dw: "mem s1 ` set (words_of (b + sizeof_ObjectHeader) e) = data_words s b"
        by (simp add: s1_def data_words_def h e_def)
      have rf1: "refers s1 w c = refers s w c" for w c
        by (simp add: s1_def refers_mark_all [OF reg])
      have dw1: "data_words s1 c = data_words s c" for c
        by (simp add: s1_def)
      have rc1: "reach s1 W = reach s W" for W
        by (simp add: s1_def reach_mark_all [OF reg])
      from s2(2) obtain M where M: "s2 = mark_all M s1" "M \<subseteq> set xs" "\<forall>c\<in>M. \<not> is_marked s1 c"
        "\<forall>w\<in>data_words s b. \<forall>c. refers s w c \<longrightarrow> is_marked s2 c"
        "\<forall>c\<in>M. \<forall>w\<in>data_words s c. \<forall>d. refers s w d \<longrightarrow> is_marked s2 d"
        "M \<subseteq> reach s (data_words s b)"
        unfolding mark_post_def dw rf1 dw1 rc1 by blast
      have b_reach: "b \<in> reach s {ptr}"
        using \<open>refers s ptr b\<close> by (blast intro: reach.root)
      have "s2 = mark_all ({b} \<union> M) s"
        by (simp add: M(1) s1_def mark_all_mark_all)
      moreover have "{b} \<union> M \<subseteq> set xs" using bx M(2) by simp
      moreover have "\<forall>c\<in>{b} \<union> M. \<not> is_marked s c"
        using nb M(3) by (auto simp: s1_def is_marked_mark_all)
      moreover have "\<forall>w\<in>{ptr}. \<forall>c. refers s w c \<longrightarrow> is_marked s2 c"
        using h by (auto simp: rf M(1) s1_def is_marked_mark_all)
      moreover have "\<forall>c\<in>{b} \<union> M. \<forall>w\<in>data_words s c. \<forall>d. refers s w d \<longrightarrow> is_marked s2 d"
        using M(4,5) by blast
      moreover have "{b} \<union> M \<subseteq> reach s {ptr}"
        using b_reach M(6) reach_data_words [OF b_reach] by blast
      ultimately have "mark_post s xs {ptr} s2"
        unfolding mark_post_def by blast
      with step s2(1) show ?thesis by simp
    qed
  qed
qed

lemma mark_object_total:
  "registry s xs \<Longrightarrow> scan_ok s xs \<Longrightarrow> todo s xs \<le> n \<Longrightarrow>
   \<exists>s'. gc_mark_object s ptr = Some s' \<and> mark_post s xs {ptr} s'"
proof (induction n arbitrary: s ptr rule: less_induct)
  case (less n)
  show ?case
  proof (rule mark_object_from_scan [OF _ less.prems])
    fix t :: gc_state and p e :: addr
    assume t: "end_ok e" "registry t xs" "scan_ok t xs" "todo t xs < n"
    have "\<And>u ptr. registry u xs \<Longrightarrow> scan_ok u xs \<Longrightarrow> todo u xs \<le> todo t xs \<Longrightarrow>
            \<exists>u'. gc_mark_object u ptr = Some u' \<and> mark_post u xs {ptr} u'"
      using less.IH [OF t(4)] by blast
    from scan_from_object [OF this t(1,2,3)]
    show "\<exists>s'. gc_mark_from_region t p e = Some s' \<and> mark_post t xs (mem t ` set (words_of p e)) s'"
      by simp
  qed
qed

lemma mark_region_total:
  assumes "end_ok e" "registry s xs" "scan_ok s xs"
  shows "\<exists>s'. gc_mark_from_region s p e = Some s' \<and> mark_post s xs (mem s ` set (words_of p e)) s'"
proof -
  have "\<And>u ptr. registry u xs \<Longrightarrow> scan_ok u xs \<Longrightarrow> todo u xs \<le> todo s xs \<Longrightarrow>
          \<exists>u'. gc_mark_object u ptr = Some u' \<and> mark_post u xs {ptr} u'"
    by (rule mark_object_total)
  from scan_from_object [OF this assms] show ?thesis by simp
qed

subsection \<open>The sweep\<close>

lemma chain_cong:
  "(\<And>a. a \<in> set xs \<Longrightarrow> objects s' a = objects s a) \<Longrightarrow> chain s' p xs = chain s p xs"
  by (induction xs arbitrary: p) (auto split: option.splits)

lemma filter_marked_cong:
  "(\<And>a. a \<in> set xs \<Longrightarrow> objects s' a = objects s a) \<Longrightarrow>
   filter (is_marked s') xs = filter (is_marked s) xs"
  by (rule filter_cong) (auto simp: is_marked_def)

lemma sweep_events_cong:
  "(\<And>a. a \<in> set xs \<Longrightarrow> objects s' a = objects s a) \<Longrightarrow> sweep_events s' xs = sweep_events s xs"
  unfolding sweep_events_def
  by (induction xs) (auto simp: is_marked_def size_of_def)

lemma gc_sweep_loop_done:
  "load_link s p = Some 0 \<Longrightarrow> gc_sweep_loop s p = Some s"
  by (subst gc_sweep_loop.simps) simp

lemma gc_sweep_loop_keep:
  "load_link s p = Some x \<Longrightarrow> x \<noteq> 0 \<Longrightarrow> objects s x = Some h \<Longrightarrow> marked h \<Longrightarrow>
   gc_sweep_loop s p = gc_sweep_loop (set_marked x False s) (Next x)"
  by (subst gc_sweep_loop.simps) simp

lemma gc_sweep_loop_free:
  "load_link s p = Some x \<Longrightarrow> x \<noteq> 0 \<Longrightarrow> objects s x = Some h \<Longrightarrow> \<not> marked h \<Longrightarrow>
   gc_sweep_loop s p =
     gc_sweep_loop (free x (emit (Print (size_h h)) (store_link p (next_h h) s))) p"
  by (subst gc_sweep_loop.simps) simp

lemma sweep_loop_total:
  "chain s c xs \<Longrightarrow> load_link s p = Some c \<Longrightarrow> (\<And>a. p = Next a \<Longrightarrow> a \<notin> set xs) \<Longrightarrow>
   \<exists>s'. gc_sweep_loop s p = Some s' \<and> sweep_post s p xs s'"
proof (induction xs arbitrary: s c p)
  case Nil
  then have "load_link s p = Some 0" by simp
  then have "gc_sweep_loop s p = Some s" by (rule gc_sweep_loop_done)
  moreover from Nil have "sweep_post s p [] s"
    by (auto simp: sweep_post_def sweep_events_def load_link_def split: link.splits)
  ultimately show ?case by blast
next
  case (Cons x xs)
  from Cons.prems(1) obtain h :: ObjectHeader
    where cx: "c = x" "x \<noteq> 0" and h: "objects s x = Some h" and tl: "chain s (next_h h) xs"
    by (auto split: option.splits)
  from Cons.prems(1) have xn: "x \<notin> set xs" by (rule chain_head_notin)
  from Cons.prems(3) have pn: "p \<noteq> Next x" "\<And>a. p = Next a \<Longrightarrow> a \<notin> set xs" by auto
  show ?case
  proof (cases "marked h")
    case True
    define s1 where "s1 = set_marked x False s"
    have o1: "objects s1 = (objects s)(x \<mapsto> h\<lparr>marked := False\<rparr>)"
      by (simp add: s1_def set_marked_def h)
    have same: "\<And>a. a \<in> set xs \<Longrightarrow> objects s1 a = objects s a"
      using xn by (auto simp: o1)
    have "chain s1 (next_h h) xs" using tl chain_cong [OF same] by simp
    moreover have "load_link s1 (Next x) = Some (next_h h)"
      by (simp add: load_link_def o1)
    ultimately obtain s' where s': "gc_sweep_loop s1 (Next x) = Some s'" "sweep_post s1 (Next x) xs s'"
      using Cons.IH [of s1 "next_h h" "Next x"] xn by blast
    from Cons.prems(2) cx h True s'(1) have run: "gc_sweep_loop s p = Some s'"
      by (simp add: gc_sweep_loop_keep s1_def)
    have fl: "filter (is_marked s1) xs = filter (is_marked s) xs"
      by (rule filter_marked_cong) (rule same)
    have ev: "sweep_events s1 xs = sweep_events s xs"
      by (rule sweep_events_cong) (rule same)
    have mx: "is_marked s x" using h True by (simp add: is_marked_def)
    have fx: "filter (is_marked s) (x # xs) = x # filter (is_marked s) xs"
      using mx by simp
    have evx: "sweep_events s (x # xs) = sweep_events s xs"
      using mx by (simp add: sweep_events_def)
    have st1: "mem s1 = mem s" "stack_bottom s1 = stack_bottom s" "trace s1 = trace s"
      "heap_start s1 = heap_start s"
      by (simp_all add: s1_def set_marked_def h)
    from s'(2) have post: "chain s' (hd0 (filter (is_marked s) xs)) (filter (is_marked s) xs)"
      "mem s' = mem s" "stack_bottom s' = stack_bottom s" "trace s' = trace s @ sweep_events s xs"
      "heap_start s' = heap_start s"
      "objects s' x = Some (h\<lparr>marked := False, next_h := hd0 (filter (is_marked s) xs)\<rparr>)"
      "\<forall>a. a \<notin> set xs \<longrightarrow> a \<noteq> x \<longrightarrow> objects s' a = objects s a"
      unfolding sweep_post_def fl ev st1 using xn by (auto simp: o1)
    from s'(2) have "\<forall>a\<in>set xs. \<forall>h. objects s1 a = Some h \<longrightarrow>
        (if marked h then \<exists>n. objects s' a = Some (h\<lparr>marked := False, next_h := n\<rparr>)
         else objects s' a = None)"
      unfolding sweep_post_def by blast
    with same have post8: "\<forall>a\<in>set xs. \<forall>h. objects s a = Some h \<longrightarrow>
        (if marked h then \<exists>n. objects s' a = Some (h\<lparr>marked := False, next_h := n\<rparr>)
         else objects s' a = None)"
      by simp
    have "chain s' x (x # filter (is_marked s) xs)"
      using post(1,6) cx by simp
    moreover have "case p of Head \<Rightarrow> heap_start s' = x
      | Next a \<Rightarrow> heap_start s' = heap_start s \<and>
          (\<exists>h. objects s a = Some h \<and> objects s' a = Some (h\<lparr>next_h := x\<rparr>))"
      using Cons.prems(2,3) post(5,7) cx
      by (auto simp: load_link_def split: link.splits)
    moreover have "\<forall>a. a \<notin> set (x # xs) \<longrightarrow> p \<noteq> Next a \<longrightarrow> objects s' a = objects s a"
      using post(7) by simp
    moreover have "\<forall>a\<in>set (x # xs). \<forall>h. objects s a = Some h \<longrightarrow>
        (if marked h then \<exists>n. objects s' a = Some (h\<lparr>marked := False, next_h := n\<rparr>)
         else objects s' a = None)"
      using post(6) post8 h True by auto
    ultimately have "sweep_post s p (x # xs) s'"
      unfolding sweep_post_def fx evx using post(2,3,4) by (simp split: link.splits)
    with run show ?thesis by blast
  next
    case False
    define s1 where "s1 = free x (emit (Print (size_h h)) (store_link p (next_h h) s))"
    have o1: "objects s1 = (case p of Head \<Rightarrow> (objects s)(x := None)
        | Next a \<Rightarrow> (objects s)(a := map_option (\<lambda>k. k\<lparr>next_h := next_h h\<rparr>) (objects s a), x := None))"
      using Cons.prems(2)
      by (auto simp: s1_def free_def emit_def store_link_def load_link_def fun_eq_iff
               split: link.splits option.splits)
    have st1: "mem s1 = mem s" "stack_bottom s1 = stack_bottom s"
      "trace s1 = trace s @ [Print (size_h h), Free x]"
      "heap_start s1 = (case p of Head \<Rightarrow> next_h h | Next a \<Rightarrow> heap_start s)"
      by (auto simp: s1_def free_def emit_def store_link_def split: link.splits option.splits)
    have same: "\<And>a. a \<in> set xs \<Longrightarrow> objects s1 a = objects s a"
      using xn pn by (auto simp: o1 split: link.splits)
    have other: "\<And>a. a \<noteq> x \<Longrightarrow> p \<noteq> Next a \<Longrightarrow> objects s1 a = objects s a"
      by (auto simp: o1 split: link.splits)
    have gone: "objects s1 x = None"
      by (auto simp: o1 split: link.splits)
    have "chain s1 (next_h h) xs" using tl chain_cong [OF same] by simp
    moreover have "load_link s1 p = Some (next_h h)"
      using Cons.prems(2) pn(1)
      by (auto simp: load_link_def o1 st1 split: link.splits)
    ultimately obtain s' where s': "gc_sweep_loop s1 p = Some s'" "sweep_post s1 p xs s'"
      using Cons.IH [of s1 "next_h h" p] pn(2) by blast
    from Cons.prems(2) cx h False s'(1) have run: "gc_sweep_loop s p = Some s'"
      by (simp add: gc_sweep_loop_free s1_def)
    have fl: "filter (is_marked s1) xs = filter (is_marked s) xs"
      by (rule filter_marked_cong) (rule same)
    have ev: "sweep_events s1 xs = sweep_events s xs"
      by (rule sweep_events_cong) (rule same)
    have mx: "\<not> is_marked s x" using h False by (simp add: is_marked_def)
    have fx: "filter (is_marked s) (x # xs) = filter (is_marked s) xs"
      using mx by simp
    have evx: "sweep_events s (x # xs) = [Print (size_h h), Free x] @ sweep_events s xs"
      using mx h by (simp add: sweep_events_def size_of_def)
    from s'(2) have post: "chain s' (hd0 (filter (is_marked s) xs)) (filter (is_marked s) xs)"
      "mem s' = mem s" "stack_bottom s' = stack_bottom s"
      "trace s' = trace s @ sweep_events s (x # xs)"
      unfolding sweep_post_def fl ev st1 evx by simp_all
    from s'(2) have lk: "case p of
        Head \<Rightarrow> heap_start s' = hd0 (filter (is_marked s) xs)
      | Next a \<Rightarrow> heap_start s' = heap_start s1 \<and>
          (\<exists>h. objects s1 a = Some h \<and> objects s' a = Some (h\<lparr>next_h := hd0 (filter (is_marked s) xs)\<rparr>))"
      unfolding sweep_post_def fl by blast
    have lk': "case p of
        Head \<Rightarrow> heap_start s' = hd0 (filter (is_marked s) xs)
      | Next a \<Rightarrow> heap_start s' = heap_start s \<and>
          (\<exists>h. objects s a = Some h \<and> objects s' a = Some (h\<lparr>next_h := hd0 (filter (is_marked s) xs)\<rparr>))"
    proof (cases p)
      case Head
      with lk show ?thesis by simp
    next
      case (Next a)
      with pn(1) have "a \<noteq> x" by auto
      with lk Next show ?thesis
        by (auto simp: o1 st1)
    qed
    from s'(2) have fr: "\<forall>a. a \<notin> set xs \<longrightarrow> p \<noteq> Next a \<longrightarrow> objects s' a = objects s1 a"
      unfolding sweep_post_def by blast
    from s'(2) have "\<forall>a\<in>set xs. \<forall>h. objects s1 a = Some h \<longrightarrow>
        (if marked h then \<exists>n. objects s' a = Some (h\<lparr>marked := False, next_h := n\<rparr>)
         else objects s' a = None)"
      unfolding sweep_post_def by blast
    with same have post8: "\<forall>a\<in>set xs. \<forall>h. objects s a = Some h \<longrightarrow>
        (if marked h then \<exists>n. objects s' a = Some (h\<lparr>marked := False, next_h := n\<rparr>)
         else objects s' a = None)"
      by simp
    have "\<forall>a. a \<notin> set (x # xs) \<longrightarrow> p \<noteq> Next a \<longrightarrow> objects s' a = objects s a"
      using fr other by simp
    moreover have "objects s' x = None"
      using fr xn pn(1) gone by simp
    then have "\<forall>a\<in>set (x # xs). \<forall>h. objects s a = Some h \<longrightarrow>
        (if marked h then \<exists>n. objects s' a = Some (h\<lparr>marked := False, next_h := n\<rparr>)
         else objects s' a = None)"
      using post8 h False by auto
    ultimately have "sweep_post s p (x # xs) s'"
      unfolding sweep_post_def fx using post lk' by simp
    with run show ?thesis by blast
  qed
qed

subsection \<open>Facts that hold whenever the functions return\<close>

lemma get_header_loop_contains:
  "get_header_loop s ptr p = Some r \<Longrightarrow> r = 0 \<or> contains s ptr r"
proof (induction rule: get_header_loop.raw_induct [rotated, consumes 1])
  case (1 loop s ptr p r)
  from "1"(2) show ?case
    by (auto simp: contains_def Let_def split: if_splits option.splits dest: "1"(1))
qed

lemma gc_mark_rec_trace:
  "gc_mark_rec s c = Some s' \<Longrightarrow> trace s' = trace s"
proof (induction rule: gc_mark_rec.raw_induct [rotated, consumes 1])
  case (1 rec s c s')
  show ?case
  proof (cases c)
    case (Inl ptr)
    with "1"(2) show ?thesis
      by (auto simp: set_marked_def split: if_splits option.splits bind_splits dest: "1"(1))
  next
    case (Inr pe)
    with "1"(2) show ?thesis
      by (cases pe) (auto split: if_splits bind_splits dest!: "1"(1))
  qed
qed

lemma gc_sweep_loop_trace:
  "gc_sweep_loop s p = Some s' \<Longrightarrow>
   \<exists>evs. trace s' = trace s @ evs \<and> filter is_Malloc evs = []"
proof (induction rule: gc_sweep_loop.raw_induct [rotated, consumes 1])
  case (1 loop s p s')
  from "1"(2) show ?case
    by (fastforce simp: set_marked_def free_def emit_def store_link_def is_Malloc_def
          split: if_splits bind_splits option.splits link.splits dest: "1"(1))
qed

subsection \<open>The collection cycle\<close>

lemma gc_mark_total:
  assumes "registry s xs" "scan_ok s xs" "stack_ok stack_top s"
  shows "\<exists>s'. gc_mark stack_top s = Some s' \<and> mark_post s xs (root_words stack_top s) s'"
proof -
  let ?lo = "min stack_top (stack_bottom s)" and ?hi = "max stack_top (stack_bottom s)"
  have "gc_mark stack_top s = gc_mark_from_region s ?lo ?hi"
    by (auto simp: gc_mark_def Let_def min_def max_def)
  moreover from assms(3) have "end_ok ?hi" by (simp add: stack_ok_def)
  ultimately show ?thesis
    using mark_region_total [OF _ assms(1,2), of ?hi ?lo] by (simp add: root_words_def)
qed

lemma mark_post_unmarked:
  assumes reg: "registry s xs" and un: "all_unmarked s xs" and post: "mark_post s xs W s'"
  shows "s' = mark_all (reach s W) s"
proof -
  from post obtain M where M: "s' = mark_all M s" "M \<subseteq> set xs"
    "\<forall>w\<in>W. \<forall>b. refers s w b \<longrightarrow> is_marked s' b"
    "\<forall>b\<in>M. \<forall>w\<in>data_words s b. \<forall>c. refers s w c \<longrightarrow> is_marked s' c"
    "M \<subseteq> reach s W"
    unfolding mark_post_def by blast
  have in_M: "is_marked s' c \<Longrightarrow> refers s w c \<Longrightarrow> c \<in> M" for c w
    using un refers_in_registry [OF reg, of w c]
    by (auto simp: M(1) is_marked_mark_all all_unmarked_def list_all_iff)
  have "b \<in> M" if "b \<in> reach s W" for b
    using that
  proof induction
    case (root w b)
    with M(3) in_M show ?case by blast
  next
    case (step b w c)
    with M(4) in_M show ?case by blast
  qed
  with M(5) have "M = reach s W" by blast
  with M(1) show ?thesis by simp
qed

lemma reach_in_registry:
  assumes "registry s xs" "b \<in> reach s W"
  shows "b \<in> set xs"
  using assms(2) by cases (auto dest: refers_in_registry [OF assms(1)])

lemma gc_sweep_total:
  assumes "registry s xs"
  shows "\<exists>s'. gc_sweep s = Some s' \<and> sweep_post s Head xs s'"
  unfolding gc_sweep_def
  using sweep_loop_total [of s "heap_start s" xs Head] assms
  by (simp add: registry_def load_link_def)

lemma sweep_post_registry:
  "sweep_post s Head xs s' \<Longrightarrow> registry s' (filter (is_marked s) xs)"
  by (simp add: sweep_post_def registry_def)

lemma sweep_events_Free:
  "b \<in> set xs \<Longrightarrow> \<not> is_marked s b \<Longrightarrow> Free b \<in> set (sweep_events s xs)"
  by (induction xs) (auto simp: sweep_events_def)

lemma gc_collect_total:
  assumes "registry s xs" "scan_ok s xs" "stack_ok stack_top s"
  shows "\<exists>s1 s'. gc_mark stack_top s = Some s1 \<and> mark_post s xs (root_words stack_top s) s1 \<and>
           gc_sweep s1 = Some s' \<and> sweep_post s1 Head xs s' \<and> gc_collect stack_top s = Some s'"
proof -
  from gc_mark_total [OF assms] obtain s1
    where s1: "gc_mark stack_top s = Some s1" "mark_post s xs (root_words stack_top s) s1"
    by blast
  from mark_post_state [OF s1(2)] assms(1) have "registry s1 xs" by simp
  from gc_sweep_total [OF this] obtain s'
    where s': "gc_sweep s1 = Some s'" "sweep_post s1 Head xs s'"
    by blast
  from s1(1) s'(1) have "gc_collect stack_top s = Some s'"
    by (simp add: gc_collect_def)
  with s1 s' show ?thesis by blast
qed

lemma sweep_post_kept:
  "sweep_post s p xs s' \<Longrightarrow> b \<in> set xs \<Longrightarrow> objects s b = Some h \<Longrightarrow> marked h \<Longrightarrow>
   \<exists>n. objects s' b = Some (h\<lparr>marked := False, next_h := n\<rparr>)"
  unfolding sweep_post_def by (auto split: if_splits)

lemma sweep_post_freed:
  "sweep_post s p xs s' \<Longrightarrow> b \<in> set xs \<Longrightarrow> objects s b = Some h \<Longrightarrow> \<not> marked h \<Longrightarrow>
   objects s' b = None \<and> Free b \<in> set (trace s')"
  unfolding sweep_post_def using sweep_events_Free [of b xs s]
  by (auto simp: is_marked_def split: if_splits)

subsection \<open>Marking a second time\<close>

lemma mark_object_revisit:
  "get_header_from_data_ptr s ptr = Some b \<Longrightarrow> b = 0 \<or> is_marked s b \<Longrightarrow>
   gc_mark_object s ptr = Some s"
  by (subst gc_mark_object_step) (auto simp: is_marked_def split: option.splits)

lemma mark_object_again:
  assumes reg: "registry s xs" and post: "mark_post s xs {ptr} s'"
  shows "gc_mark_object s' ptr = Some s'"
proof -
  from post obtain M where M: "s' = mark_all M s" "\<forall>b. refers s ptr b \<longrightarrow> is_marked s' b"
    unfolding mark_post_def by blast
  from reg have reg': "registry s' xs" by (simp add: M(1))
  have look: "get_header_from_data_ptr s' ptr = Some (owner s ptr xs)"
    using get_header_registry [OF reg', of ptr] by (simp add: M(1))
  show ?thesis
  proof (cases "ptr = 0")
    case True
    then show ?thesis by (subst gc_mark_object_step) simp
  next
    case False
    with M(2) have "owner s ptr xs = 0 \<or> is_marked s' (owner s ptr xs)"
      by (auto simp: refers_registry [OF reg])
    with look show ?thesis by (rule mark_object_revisit)
  qed
qed

subsection \<open>The test of the lookup and the data region\<close>

lemma contains_data_range:
  assumes "contains s ptr b"
  shows "unat ptr \<in> data_range s b"
proof -
  from assms obtain h :: ObjectHeader where h: "objects s b = Some h"
    and lo: "data_start b \<le> ptr" and hi: "ptr < data_start b + size_h h"
    by (auto simp: contains_def data_start_def split: option.splits)
  have "unat (data_start b + size_h h) \<le> unat (data_start b) + unat (size_h h)"
    by (simp add: unat_word_ariths)
  with lo hi h show ?thesis
    by (simp add: data_range_def word_le_nat_alt word_less_nat_alt)
qed

lemma contains_fits:
  assumes "contains s ptr b"
  shows "fits s b"
proof (rule ccontr)
  assume nf: "\<not> fits s b"
  from assms obtain h :: ObjectHeader where h: "objects s b = Some h"
    and lo: "data_start b \<le> ptr" and hi: "ptr < data_start b + size_h h"
    by (auto simp: contains_def data_start_def split: option.splits)
  from nf h have big: "2 ^ 64 \<le> unat (data_start b) + unat (size_h h)"
    by (simp add: fits_def)
  have small: "unat (size_h h) < 2 ^ 64" "unat (data_start b) < 2 ^ 64"
    using unsigned_less [of "size_h h"] unsigned_less [of "data_start b"] by simp_all
  let ?n = "unat (data_start b) + unat (size_h h)"
  from big have "?n mod 2 ^ 64 = (?n - 2 ^ 64) mod 2 ^ 64" by (rule le_mod_geq)
  also from small have "?n - 2 ^ 64 < 2 ^ 64" by linarith
  then have "(?n - 2 ^ 64) mod 2 ^ 64 = ?n - 2 ^ 64" by (rule mod_less)
  finally have "?n mod 2 ^ 64 = ?n - 2 ^ 64" .
  moreover from big small have "?n - 2 ^ 64 < unat (data_start b)" by linarith
  ultimately have "unat (data_start b + size_h h) < unat (data_start b)"
    by (simp add: unat_word_ariths)
  with lo hi show False
    by (simp add: word_le_nat_alt word_less_nat_alt)
qed

lemma data_range_contains:
  assumes "fits s b" "unat ptr \<in> data_range s b"
  shows "contains s ptr b"
proof -
  from assms(1) obtain h :: ObjectHeader where h: "objects s b = Some h"
    and fit: "unat (data_start b) + unat (size_h h) < 2 ^ 64"
    by (auto simp: fits_def split: option.splits)
  from fit have "unat (data_start b + size_h h) = unat (data_start b) + unat (size_h h)"
    by (simp add: unat_add_lem [THEN iffD1])
  with assms(2) h show ?thesis
    by (simp add: data_range_def contains_def data_start_def word_le_nat_alt word_less_nat_alt)
qed

lemma owner_found:
  "b \<in> set xs \<Longrightarrow> contains s ptr b \<Longrightarrow>
   owner s ptr xs \<in> set xs \<and> contains s ptr (owner s ptr xs)"
  by (induction xs) auto

subsection \<open>Allocation\<close>

lemma emit_simps [simp]:
  "heap_start (emit e s) = heap_start s"
  "stack_bottom (emit e s) = stack_bottom s"
  "objects (emit e s) = objects s"
  "mem (emit e s) = mem s"
  "trace (emit e s) = trace s @ [e]"
  by (simp_all add: emit_def)

lemma chain_emit [simp]: "chain (emit e s) p xs = chain s p xs"
  by (rule chain_cong) simp

lemma registry_emit [simp]: "registry (emit e s) xs = registry s xs"
  by (simp add: registry_def)

lemma scan_ok_emit [simp]: "scan_ok (emit e s) xs = scan_ok s xs"
  by (simp add: scan_ok_def)

lemma stack_ok_emit [simp]: "stack_ok t (emit e s) = stack_ok t s"
  by (simp add: stack_ok_def)

lemma is_marked_emit [simp]: "is_marked (emit e s) = is_marked s"
  by (simp add: is_marked_def fun_eq_iff)

lemma all_unmarked_emit [simp]: "all_unmarked (emit e s) xs = all_unmarked s xs"
  by (simp add: all_unmarked_def)

lemma header_ok_data_start: "header_ok r \<Longrightarrow> r \<noteq> 0 \<Longrightarrow> data_start r \<noteq> 0"
proof -
  assume a: "header_ok r" "r \<noteq> 0"
  then have "unat (r + sizeof_ObjectHeader) = unat r + unat sizeof_ObjectHeader"
    by (simp add: header_ok_def unat_add_lem [THEN iffD1])
  moreover from a(2) have "unat r \<noteq> 0" by (simp add: unat_eq_zero)
  ultimately have "unat (data_start r) \<noteq> 0" by (simp add: data_start_def)
  then show ?thesis by (simp add: unat_eq_zero)
qed

lemma init_header_simps:
  "fst (init_header r sz s) = data_start r"
  "heap_start (snd (init_header r sz s)) = r"
  "stack_bottom (snd (init_header r sz s)) = stack_bottom s"
  "objects (snd (init_header r sz s)) = (objects s)(r \<mapsto> \<lparr>marked = False, size_h = sz, next_h = heap_start s\<rparr>)"
  "mem (snd (init_header r sz s)) = mem s"
  "trace (snd (init_header r sz s)) = trace s"
  by (simp_all add: init_header_def data_start_def)


lemma init_header_registry:
  assumes reg: "registry s xs" and r: "r \<noteq> 0" "objects s r = None"
  shows "registry (snd (init_header r sz s)) (r # xs)"
proof -
  let ?s' = "snd (init_header r sz s)"
  from reg r(2) have "r \<notin> set xs"
    unfolding registry_def using chain_present by fastforce
  then have "chain ?s' (heap_start s) xs = chain s (heap_start s) xs"
    by (intro chain_cong) (auto simp: init_header_simps)
  with reg r(1) show ?thesis
    by (simp add: registry_def init_header_simps)
qed

lemma init_header_unmarked:
  assumes "all_unmarked s xs"
  shows "all_unmarked (snd (init_header r sz s)) (r # xs)"
  using assms
  by (auto simp: all_unmarked_def list_all_iff is_marked_def init_header_simps)

lemma sweep_post_all_unmarked:
  assumes reg: "registry s xs" and post: "sweep_post s Head xs s'"
  shows "all_unmarked s' (filter (is_marked s) xs)"
proof -
  have "\<not> is_marked s' b" if b: "b \<in> set xs" "is_marked s b" for b
  proof -
    from b(2) obtain h :: ObjectHeader where h: "objects s b = Some h" "marked h"
      by (auto simp: is_marked_def split: option.splits)
    from sweep_post_kept [OF post b(1) h] show ?thesis
      by (auto simp: is_marked_def)
  qed
  then show ?thesis by (simp add: all_unmarked_def list_all_iff)
qed


lemma GC_malloc_fast:
  "r1 \<noteq> 0 \<Longrightarrow>
   GC_malloc r1 r2 stack_top s sz =
     Some (init_header r1 sz (emit (Malloc (sizeof_ObjectHeader + sz)) s))"
  by (simp add: GC_malloc_def Let_def)

lemma GC_malloc_slow:
  "gc_collect stack_top (emit (Malloc (sizeof_ObjectHeader + sz)) s) = Some s2 \<Longrightarrow>
   GC_malloc 0 r2 stack_top s sz =
     (if r2 = 0 then Some (0, emit (Malloc (sizeof_ObjectHeader + sz)) s2)
      else Some (init_header r2 sz (emit (Malloc (sizeof_ObjectHeader + sz)) s2)))"
  by (simp add: GC_malloc_def Let_def)

lemma gc_collect_trace:
  assumes "gc_collect stack_top s = Some s'"
  shows "\<exists>evs. trace s' = trace s @ evs \<and> filter is_Malloc evs = []"
proof -
  from assms obtain s1 where s1: "gc_mark stack_top s = Some s1" "gc_sweep s1 = Some s'"
    by (auto simp: gc_collect_def split: bind_splits)
  from s1(1) have "trace s1 = trace s"
    by (auto simp: gc_mark_def gc_mark_from_region_def Let_def split: if_splits
             dest: gc_mark_rec_trace)
  with gc_sweep_loop_trace [of s1 Head s'] s1(2) show ?thesis
    by (simp add: gc_sweep_def)
qed

subsection \<open>Empty blocks\<close>

lemma contains_nonempty:
  "contains s ptr b \<Longrightarrow> size_of s b \<noteq> 0"
  by (auto simp: contains_def size_of_def word_le_nat_alt word_less_nat_alt split: option.splits)

lemma refers_nonempty:
  assumes "refers s w b"
  shows "size_of s b \<noteq> 0"
proof -
  from assms have "get_header_loop s w (heap_start s) = Some b" "b \<noteq> 0"
    by (simp_all add: refers_def get_header_from_data_ptr_def)
  with get_header_loop_contains [of s w "heap_start s" b] show ?thesis
    by (auto dest: contains_nonempty)
qed

lemma reach_nonempty: "b \<in> reach s W \<Longrightarrow> size_of s b \<noteq> 0"
  by (cases rule: reach.cases) (auto dest: refers_nonempty)

lemma mark_post_skips_empty:
  assumes "mark_post s xs W s'" "size_of s b = 0"
  shows "objects s' b = objects s b"
proof -
  from assms(1) obtain M where M: "s' = mark_all M s" "M \<subseteq> reach s W"
    unfolding mark_post_def by blast
  from M(2) assms(2) reach_nonempty have "b \<notin> M" by blast
  with M(1) show ?thesis by (simp add: objects_mark_all)
qed

subsection \<open>The invariants of the heap\<close>

text \<open>
  The hypotheses of the theorems below hold in every state of a run in which \<open>malloc\<close>
  keeps its promise.  \<open>heap_inv\<close> holds for the empty registry and gives \<open>scan_ok\<close>,
  \<open>fits\<close> and \<open>no_overlap\<close>; \<open>GC_malloc\<close> keeps it as long as no request overflows
  (\<open>GC_malloc_heap_inv\<close>).  A request that overflows gives a block whose size field is
  larger than its chunk; \<open>registry\<close>, \<open>scan_ok\<close> and \<open>stack_ok\<close> are kept even then
  (\<open>GC_malloc_scan_ok\<close>).
\<close>

lemma chunk_ok_data_start:
  assumes "chunk_ok s b" "objects s b = Some h"
  shows "unat (data_start b) = unat b + unat sizeof_ObjectHeader"
    and "unat (data_start b + size_h h) = unat b + unat sizeof_ObjectHeader + unat (size_h h)"
proof -
  from assms have le: "unat b + unat sizeof_ObjectHeader + unat (size_h h) + unat sizeof_ptr \<le> 2 ^ 64"
    by (simp add: chunk_ok_def)
  have "0 < unat sizeof_ptr" by (simp add: sizeof_ptr_def)
  with le have lt: "unat b + unat sizeof_ObjectHeader + unat (size_h h) < 2 ^ 64" by linarith
  then have "unat b + unat sizeof_ObjectHeader < 2 ^ 64" by linarith
  then show 1: "unat (data_start b) = unat b + unat sizeof_ObjectHeader"
    by (simp add: data_start_def unat_add_lem [THEN iffD1])
  from lt 1 have "unat (data_start b) + unat (size_h h) < 2 ^ 64" by simp
  then have "unat (data_start b + size_h h) = unat (data_start b) + unat (size_h h)"
    by (simp add: unat_add_lem [THEN iffD1])
  with 1 show "unat (data_start b + size_h h) = unat b + unat sizeof_ObjectHeader + unat (size_h h)"
    by simp
qed

lemma layout_scan_ok:
  assumes "layout_ok s xs"
  shows "scan_ok s xs"
proof -
  have "end_ok (b + sizeof_ObjectHeader + size_h h)"
    if "b \<in> set xs" "objects s b = Some h" for b and h :: ObjectHeader
  proof -
    from assms that(1) have ok: "chunk_ok s b" by (simp add: layout_ok_def list_all_iff)
    from chunk_ok_data_start(2) [OF ok that(2)] ok that(2) show ?thesis
      by (simp add: end_ok_def chunk_ok_def data_start_def)
  qed
  then show ?thesis by (auto simp: scan_ok_def list_all_iff split: option.splits)
qed

lemma layout_fits:
  assumes "layout_ok s xs" "b \<in> set xs"
  shows "fits s b"
proof -
  from assms have ok: "chunk_ok s b" by (simp add: layout_ok_def list_all_iff)
  then obtain h :: ObjectHeader where h: "objects s b = Some h"
    by (auto simp: chunk_ok_def split: option.splits)
  have "0 < unat sizeof_ptr" by (simp add: sizeof_ptr_def)
  with ok h chunk_ok_data_start(1) [OF ok h] show ?thesis
    by (simp add: fits_def chunk_ok_def)
qed

lemma data_range_chunk:
  assumes "chunk_ok s b"
  shows "data_range s b \<subseteq> chunk s b"
proof -
  from assms obtain h :: ObjectHeader where h: "objects s b = Some h"
    by (auto simp: chunk_ok_def split: option.splits)
  from chunk_ok_data_start(1) [OF assms h] h show ?thesis
    by (auto simp: data_range_def chunk_def)
qed

lemma layout_no_overlap:
  assumes "layout_ok s xs"
  shows "no_overlap s xs"
  unfolding no_overlap_def
proof (intro ballI impI)
  fix b c assume bc: "b \<in> set xs" "c \<in> set xs" "b \<noteq> c"
  with assms have "chunk s b \<inter> chunk s c = {}" "chunk_ok s b" "chunk_ok s c"
    by (auto simp: layout_ok_def list_all_iff)
  with data_range_chunk [of s b] data_range_chunk [of s c]
  show "data_range s b \<inter> data_range s c = {}" by blast
qed

lemma layout_ok_cong:
  assumes "\<And>a. a \<in> set xs \<Longrightarrow> map_option size_h (objects s' a) = map_option size_h (objects s a)"
  shows "layout_ok s' xs = layout_ok s xs"
proof -
  have c: "chunk s' a = chunk s a" if "a \<in> set xs" for a
    using assms [OF that] by (auto simp: chunk_def split: option.splits)
  have k: "chunk_ok s' a = chunk_ok s a" if "a \<in> set xs" for a
    using assms [OF that] by (auto simp: chunk_ok_def split: option.splits)
  show ?thesis
    unfolding layout_ok_def list_all_iff using c k by auto
qed

lemma layout_ok_mark_all [simp]: "layout_ok (mark_all M s) xs = layout_ok s xs"
  by (rule layout_ok_cong) (simp add: objects_mark_all option.map_comp comp_def)

lemma layout_ok_emit [simp]: "layout_ok (emit e s) xs = layout_ok s xs"
  by (rule layout_ok_cong) simp

lemma layout_ok_filter: "layout_ok s xs \<Longrightarrow> layout_ok s (filter P xs)"
  by (auto simp: layout_ok_def list_all_iff)

lemma layout_ok_sweep:
  assumes reg: "registry s xs" and lay: "layout_ok s xs" and post: "sweep_post s Head xs s'"
  shows "layout_ok s' (filter (is_marked s) xs)"
proof -
  have "map_option size_h (objects s' a) = map_option size_h (objects s a)"
    if "a \<in> set (filter (is_marked s) xs)" for a
  proof -
    from that obtain h :: ObjectHeader where h: "a \<in> set xs" "objects s a = Some h" "marked h"
      by (auto simp: is_marked_def split: option.splits)
    from sweep_post_kept [OF post h] h(2) show ?thesis by auto
  qed
  then have "layout_ok s' (filter (is_marked s) xs) = layout_ok s (filter (is_marked s) xs)"
    by (rule layout_ok_cong)
  with layout_ok_filter [OF lay] show ?thesis by simp
qed

lemma layout_ok_init_header:
  assumes reg: "registry s xs" and lay: "layout_ok s xs"
    and r: "malloc_ok s xs (sizeof_ObjectHeader + sz) r"
    and req: "unat sizeof_ObjectHeader + unat sz < 2 ^ 64"
  shows "layout_ok (snd (init_header r sz s)) (r # xs)"
proof -
  let ?s' = "snd (init_header r sz s)"
  from req have tot: "unat (sizeof_ObjectHeader + sz) = unat sizeof_ObjectHeader + unat sz"
    by (simp add: unat_add_lem [THEN iffD1])
  from r have none: "objects s r = None" by (simp add: malloc_ok_def)
  with reg have rx: "r \<notin> set xs"
    unfolding registry_def using chain_present by fastforce
  have old: "objects ?s' a = objects s a" if "a \<in> set xs" for a
    using that rx by (auto simp: init_header_simps)
  have c_old: "chunk ?s' a = chunk s a" if "a \<in> set xs" for a
    using old [OF that] by (simp add: chunk_def)
  have k_old: "chunk_ok ?s' a = chunk_ok s a" if "a \<in> set xs" for a
    using old [OF that] by (simp add: chunk_ok_def)
  have c_new: "chunk ?s' r = {unat r ..< unat r + unat (sizeof_ObjectHeader + sz)}"
    by (simp add: chunk_def init_header_simps tot add.assoc)
  from r have k_new: "chunk_ok ?s' r"
    by (simp add: chunk_ok_def init_header_simps malloc_ok_def tot add.assoc)
  from r have apart: "\<forall>b\<in>set xs. chunk s b \<inter> chunk ?s' r = {}"
    by (simp add: malloc_ok_def c_new)
  from lay have l1: "list_all (chunk_ok s) xs"
    and l2: "\<forall>b\<in>set xs. \<forall>c\<in>set xs. b \<noteq> c \<longrightarrow> chunk s b \<inter> chunk s c = {}"
    by (simp_all add: layout_ok_def)
  from l1 k_old k_new have "list_all (chunk_ok ?s') (r # xs)"
    by (simp add: list_all_iff)
  moreover from l2 apart c_old
  have "\<forall>b\<in>set (r # xs). \<forall>c\<in>set (r # xs). b \<noteq> c \<longrightarrow> chunk ?s' b \<inter> chunk ?s' c = {}"
    by (auto simp: Int_commute)
  ultimately show ?thesis by (simp add: layout_ok_def)
qed

lemma heap_inv_start: "heap_start s = 0 \<Longrightarrow> heap_inv (GC_init dummy s) []"
  by (simp add: heap_inv_def registry_def all_unmarked_def layout_ok_def GC_init_def)

lemma heap_inv_scan_ok: "heap_inv s xs \<Longrightarrow> scan_ok s xs"
  by (simp add: heap_inv_def layout_scan_ok)

lemma heap_inv_init_header:
  assumes "heap_inv s xs" "r \<noteq> 0" "malloc_ok s xs (sizeof_ObjectHeader + sz) r"
    "unat sizeof_ObjectHeader + unat sz < 2 ^ 64"
  shows "heap_inv (snd (init_header r sz s)) (r # xs)"
proof -
  from assms(3) have "objects s r = None" by (simp add: malloc_ok_def)
  with assms show ?thesis
    unfolding heap_inv_def
    by (simp add: init_header_registry init_header_unmarked layout_ok_init_header)
qed

lemma malloc_ok_emit [simp]: "malloc_ok (emit e s) xs n r = malloc_ok s xs n r"
  by (simp add: malloc_ok_def chunk_def)

lemma heap_inv_emit [simp]: "heap_inv (emit e s) xs = heap_inv s xs"
  by (simp add: heap_inv_def)

lemma heap_inv_collect:
  assumes inv: "heap_inv s xs" and top: "stack_ok stack_top s"
  shows "\<exists>s' ys. gc_collect stack_top s = Some s' \<and> heap_inv s' ys \<and>
           stack_bottom s' = stack_bottom s"
proof -
  from inv have reg: "registry s xs" and lay: "layout_ok s xs" by (simp_all add: heap_inv_def)
  from gc_collect_total [OF reg layout_scan_ok [OF lay] top] obtain s1 s'
    where c: "mark_post s xs (root_words stack_top s) s1" "sweep_post s1 Head xs s'"
      "gc_collect stack_top s = Some s'"
    by blast
  from c(1) obtain M where M: "s1 = mark_all M s" unfolding mark_post_def by blast
  from reg lay have reg1: "registry s1 xs" and lay1: "layout_ok s1 xs" by (simp_all add: M)
  let ?ys = "filter (is_marked s1) xs"
  from sweep_post_registry [OF c(2)] sweep_post_all_unmarked [OF reg1 c(2)]
    layout_ok_sweep [OF reg1 lay1 c(2)]
  have "heap_inv s' ?ys" by (simp add: heap_inv_def)
  moreover from c(2) have "stack_bottom s' = stack_bottom s"
    by (simp add: sweep_post_def M)
  ultimately show ?thesis using c(3) by blast
qed

lemma GC_malloc_heap_inv:
  assumes inv: "heap_inv s xs" and top: "stack_ok stack_top s"
    and req: "unat sizeof_ObjectHeader + unat sz < 2 ^ 64"
    and r1: "r1 = 0 \<or> malloc_ok s xs (sizeof_ObjectHeader + sz) r1"
    and r2: "\<And>s2 ys. gc_collect stack_top (emit (Malloc (sizeof_ObjectHeader + sz)) s) = Some s2 \<Longrightarrow>
               heap_inv s2 ys \<Longrightarrow> r2 = 0 \<or> malloc_ok s2 ys (sizeof_ObjectHeader + sz) r2"
  shows "\<exists>res s' ys. GC_malloc r1 r2 stack_top s sz = Some (res, s') \<and> heap_inv s' ys \<and>
           stack_ok stack_top s'"
proof (cases "r1 = 0")
  case False
  let ?m = "Malloc (sizeof_ObjectHeader + sz)"
  let ?r = "init_header r1 sz (emit ?m s)"
  from False r1 inv req have "heap_inv (snd ?r) (r1 # xs)"
    by (intro heap_inv_init_header) simp_all
  moreover from False have "GC_malloc r1 r2 stack_top s sz = Some (fst ?r, snd ?r)"
    by (simp add: GC_malloc_fast)
  moreover from top have "stack_ok stack_top (snd ?r)"
    by (simp add: stack_ok_def init_header_simps)
  ultimately show ?thesis by blast
next
  case True
  let ?m = "Malloc (sizeof_ObjectHeader + sz)"
  from heap_inv_collect [of "emit ?m s" xs stack_top] inv top obtain s2 ys
    where c: "gc_collect stack_top (emit ?m s) = Some s2" "heap_inv s2 ys"
      "stack_bottom s2 = stack_bottom s"
    by auto
  show ?thesis
  proof (cases "r2 = 0")
    case z: True
    with c True have "GC_malloc r1 r2 stack_top s sz = Some (0, emit ?m s2)"
      by (simp add: GC_malloc_slow)
    moreover from c(2) have "heap_inv (emit ?m s2) ys" by simp
    moreover from top c(3) have "stack_ok stack_top (emit ?m s2)" by (simp add: stack_ok_def)
    ultimately show ?thesis by blast
  next
    case n: False
    let ?r = "init_header r2 sz (emit ?m s2)"
    from r2 [OF c(1,2)] n have "malloc_ok s2 ys (sizeof_ObjectHeader + sz) r2" by simp
    with n c(2) req have "heap_inv (snd ?r) (r2 # ys)"
      by (intro heap_inv_init_header) simp_all
    moreover from c(1) True n have "GC_malloc r1 r2 stack_top s sz = Some (fst ?r, snd ?r)"
      by (simp add: GC_malloc_slow)
    moreover from top c(3) have "stack_ok stack_top (snd ?r)"
      by (simp add: stack_ok_def init_header_simps)
    ultimately show ?thesis by blast
  qed
qed

lemma scan_ok_cong:
  assumes "\<And>a. a \<in> set xs \<Longrightarrow> map_option size_h (objects s' a) = map_option size_h (objects s a)"
  shows "scan_ok s' xs = scan_ok s xs"
proof -
  have "(case objects s' a of None \<Rightarrow> True | Some h \<Rightarrow> end_ok (a + sizeof_ObjectHeader + size_h h)) =
        (case objects s a of None \<Rightarrow> True | Some h \<Rightarrow> end_ok (a + sizeof_ObjectHeader + size_h h))"
    if "a \<in> set xs" for a
    using assms [OF that] by (auto split: option.splits)
  then show ?thesis by (simp add: scan_ok_def list_all_iff)
qed

lemma scan_ok_init_header:
  assumes reg: "registry s xs" and ok: "scan_ok s xs"
    and r: "objects s r = None" "end_ok (r + sizeof_ObjectHeader + sz)"
  shows "scan_ok (snd (init_header r sz s)) (r # xs)"
proof -
  let ?s' = "snd (init_header r sz s)"
  from reg r(1) have "r \<notin> set xs"
    unfolding registry_def using chain_present by fastforce
  then have "scan_ok ?s' xs = scan_ok s xs"
    by (intro scan_ok_cong) (auto simp: init_header_simps)
  with ok r(2) show ?thesis
    by (simp add: scan_ok_def init_header_simps)
qed

lemma scan_ok_sweep:
  assumes ok: "scan_ok s xs" and post: "sweep_post s Head xs s'"
  shows "scan_ok s' (filter (is_marked s) xs)"
proof -
  have "map_option size_h (objects s' a) = map_option size_h (objects s a)"
    if "a \<in> set (filter (is_marked s) xs)" for a
  proof -
    from that obtain h :: ObjectHeader where h: "a \<in> set xs" "objects s a = Some h" "marked h"
      by (auto simp: is_marked_def split: option.splits)
    from sweep_post_kept [OF post h] h(2) show ?thesis by auto
  qed
  then have "scan_ok s' (filter (is_marked s) xs) = scan_ok s (filter (is_marked s) xs)"
    by (rule scan_ok_cong)
  with ok show ?thesis by (simp add: scan_ok_def list_all_iff)
qed

lemma GC_malloc_scan_ok:
  assumes inv: "registry s xs" "scan_ok s xs" "stack_ok stack_top s"
    and r1: "r1 = 0 \<or> objects s r1 = None \<and> end_ok (r1 + sizeof_ObjectHeader + sz)"
    and r2: "\<And>s2. gc_collect stack_top (emit (Malloc (sizeof_ObjectHeader + sz)) s) = Some s2 \<Longrightarrow>
               r2 = 0 \<or> objects s2 r2 = None \<and> end_ok (r2 + sizeof_ObjectHeader + sz)"
  shows "\<exists>res s' ys. GC_malloc r1 r2 stack_top s sz = Some (res, s') \<and>
           registry s' ys \<and> scan_ok s' ys \<and> stack_ok stack_top s'"
proof (cases "r1 = 0")
  case False
  let ?m = "Malloc (sizeof_ObjectHeader + sz)"
  let ?r = "init_header r1 sz (emit ?m s)"
  from False r1 have n: "objects (emit ?m s) r1 = None" "end_ok (r1 + sizeof_ObjectHeader + sz)"
    by simp_all
  from inv(1) have reg: "registry (emit ?m s) xs" by simp
  from inv(2) have ok: "scan_ok (emit ?m s) xs" by simp
  from False have "GC_malloc r1 r2 stack_top s sz = Some (fst ?r, snd ?r)"
    by (simp add: GC_malloc_fast)
  moreover from inv(3) have "stack_ok stack_top (snd ?r)"
    by (simp add: stack_ok_def init_header_simps)
  ultimately show ?thesis
    using init_header_registry [OF reg False n(1)] scan_ok_init_header [OF reg ok n]
    by blast
next
  case True
  let ?m = "Malloc (sizeof_ObjectHeader + sz)"
  from gc_collect_total [of "emit ?m s" xs stack_top] inv
  obtain s1 s2 where c: "mark_post (emit ?m s) xs (root_words stack_top (emit ?m s)) s1"
      "sweep_post s1 Head xs s2" "gc_collect stack_top (emit ?m s) = Some s2"
    by auto
  from mark_post_state [OF c(1)] inv have s1: "registry s1 xs" "scan_ok s1 xs" by simp_all
  from c(1) obtain M where M: "s1 = mark_all M (emit ?m s)" unfolding mark_post_def by blast
  let ?ys = "filter (is_marked s1) xs"
  from sweep_post_registry [OF c(2)] have reg2: "registry (emit ?m s2) ?ys" by simp
  from scan_ok_sweep [OF s1(2) c(2)] have ok2: "scan_ok (emit ?m s2) ?ys" by simp
  from c(2) have "stack_bottom s2 = stack_bottom s" by (simp add: sweep_post_def M)
  with inv(3) have top2: "stack_ok stack_top (emit ?m s2)" by (simp add: stack_ok_def)
  show ?thesis
  proof (cases "r2 = 0")
    case z: True
    with c(3) True have "GC_malloc r1 r2 stack_top s sz = Some (0, emit ?m s2)"
      by (simp add: GC_malloc_slow)
    with reg2 ok2 top2 show ?thesis by blast
  next
    case n: False
    let ?r = "init_header r2 sz (emit ?m s2)"
    from r2 [OF c(3)] n
    have f: "objects (emit ?m s2) r2 = None" "end_ok (r2 + sizeof_ObjectHeader + sz)"
      by simp_all
    from c(3) True n have "GC_malloc r1 r2 stack_top s sz = Some (fst ?r, snd ?r)"
      by (simp add: GC_malloc_slow)
    moreover from top2 have "stack_ok stack_top (snd ?r)"
      by (simp add: stack_ok_def init_header_simps)
    ultimately show ?thesis
      using init_header_registry [OF reg2 n f(1)] scan_ok_init_header [OF reg2 ok2 f]
      by blast
  qed
qed

subsection \<open>What a collection keeps and what it frees\<close>

text \<open>
  A collection, started between two collections, returns; it keeps the blocks that
  marking finds from the words that the scan of the stack loads, in the old order and with
  clear mark bits, and it unlinks and frees every other block of the registry.
\<close>

lemma gc_collect_keeps_traced:
  assumes "registry s xs" "scan_ok s xs" "stack_ok stack_top s" "all_unmarked s xs"
  shows "\<exists>s'. gc_collect stack_top s = Some s' \<and>
           reach s (root_words stack_top s) \<subseteq> set xs \<and>
           registry s' (filter (\<lambda>b. b \<in> reach s (root_words stack_top s)) xs) \<and>
           (\<forall>b\<in>set xs. if b \<in> reach s (root_words stack_top s)
                        then \<exists>h. objects s' b = Some h \<and> \<not> marked h
                        else objects s' b = None \<and> Free b \<in> set (trace s'))"
proof -
  let ?R = "reach s (root_words stack_top s)"
  from gc_collect_total [OF assms(1,2,3)] obtain s1 s'
    where s1: "mark_post s xs (root_words stack_top s) s1"
      and s': "sweep_post s1 Head xs s'" "gc_collect stack_top s = Some s'"
    by blast
  from mark_post_unmarked [OF assms(1,4) s1] have s1_eq: "s1 = mark_all ?R s" .
  have sub: "?R \<subseteq> set xs"
    using reach_in_registry [OF assms(1)] by auto
  have present: "\<exists>h. objects s b = Some h \<and> \<not> marked h" if "b \<in> set xs" for b
    using that assms(1,4) chain_present [of s "heap_start s" xs b]
    by (auto simp: registry_def all_unmarked_def list_all_iff is_marked_def)
  have m1: "is_marked s1 b \<longleftrightarrow> b \<in> ?R" if "b \<in> set xs" for b
  proof -
    have "is_marked s1 b \<longleftrightarrow> is_marked s b \<or> (b \<in> ?R \<and> objects s b \<noteq> None)"
      by (simp add: s1_eq is_marked_mark_all)
    with present [OF that] show ?thesis by (auto simp: is_marked_def)
  qed
  have "filter (is_marked s1) xs = filter (\<lambda>b. b \<in> ?R) xs"
    by (rule filter_cong) (simp_all add: m1)
  with sweep_post_registry [OF s'(1)] have reg': "registry s' (filter (\<lambda>b. b \<in> ?R) xs)"
    by simp
  have each: "if b \<in> ?R then \<exists>h. objects s' b = Some h \<and> \<not> marked h
              else objects s' b = None \<and> Free b \<in> set (trace s')" if bx: "b \<in> set xs" for b
  proof -
    from present [OF bx] obtain h :: ObjectHeader where h: "objects s b = Some h" "\<not> marked h"
      by blast
    show ?thesis
    proof (cases "b \<in> ?R")
      case True
      with h have "objects s1 b = Some (h\<lparr>marked := True\<rparr>)"
        by (simp add: s1_eq objects_mark_all)
      from sweep_post_kept [OF s'(1) bx this] True show ?thesis by auto
    next
      case False
      with h have "objects s1 b = Some h"
        by (simp add: s1_eq objects_mark_all)
      from sweep_post_freed [OF s'(1) bx this h(2)] False show ?thesis by simp
    qed
  qed
  from s'(2) sub reg' each show ?thesis by blast
qed

subsection \<open>The lookup inside a data region that does not wrap\<close>

text \<open>
  When the data region of a block lies inside the address space and overlaps no other such
  region, the lookup of an address at an offset below the size answers the block.
\<close>

lemma find_owner_inside:
  assumes reg: "registry s xs" and sep: "no_overlap s xs"
    and B: "B \<in> set xs" "objects s B = Some h" "fits s B"
    and off: "off < size_h h"
  shows "get_header_from_data_ptr s (data_start B + off) = Some B"
proof -
  let ?ptr = "data_start B + off"
  from B(2,3) have fit: "unat (data_start B) + unat (size_h h) < 2 ^ 64"
    by (simp add: fits_def)
  with off have "unat (data_start B) + unat off < 2 ^ 64"
    by (simp add: word_less_nat_alt)
  then have "unat ?ptr = unat (data_start B) + unat off"
    by (simp add: unat_add_lem [THEN iffD1])
  with off B(2) have inB: "unat ?ptr \<in> data_range s B"
    by (simp add: data_range_def word_less_nat_alt)
  with B(3) have "contains s ?ptr B" by (rule data_range_contains)
  from owner_found [OF B(1) this]
  have o: "owner s ?ptr xs \<in> set xs" "contains s ?ptr (owner s ?ptr xs)" by simp_all
  from o(2) have "unat ?ptr \<in> data_range s (owner s ?ptr xs)" by (rule contains_data_range)
  moreover from o(2) have "fits s (owner s ?ptr xs)" by (rule contains_fits)
  ultimately have "owner s ?ptr xs = B"
    using inB sep B(1,3) o(1) unfolding no_overlap_def by blast
  with get_header_registry [OF reg, of ?ptr] show ?thesis by simp
qed

subsection \<open>The example heap\<close>

text \<open>
  The example heap is a well-formed state.  From the words that the scan of its stack
  loads, marking finds the blocks at \<open>0x2000\<close> and \<open>0x1000\<close>; a collection keeps these
  two and frees the other two (\<open>ex_collect_traced\<close>).  A request of \<open>2 ^ 64 - 1\<close> bytes
  on this heap overflows in the sum with the header size (\<open>ex_overflow_request\<close>).

  In \<open>ex_live\<close> no scanned word is a pointer into a block (\<open>ex_live_traced\<close>).
  \<open>ex_ghost\<close> is what \<open>GC_malloc\<close> returns for the request of \<open>2 ^ 64 - 1\<close> bytes on the
  empty registry (\<open>ex_ghost_malloc\<close>); with the returned pointer in the first scanned
  word of the stack, the next collection frees the block all the same
  (\<open>ex_ghost_collect\<close>).
\<close>

lemma ex_registry: "registry ex_heap ex_blocks"
  by (simp add: registry_def ex_heap_def ex_blocks_def)

lemma ex_scan_ok: "scan_ok ex_heap ex_blocks"
  by (simp add: scan_ok_def end_ok_def ex_heap_def ex_blocks_def sizeof_ObjectHeader_def sizeof_ptr_def)

lemma ex_stack_ok: "stack_ok ex_top ex_heap"
  by (simp add: stack_ok_def end_ok_def ex_heap_def ex_top_def sizeof_ptr_def)

lemma ex_all_unmarked: "all_unmarked ex_heap ex_blocks"
  by (simp add: all_unmarked_def is_marked_def ex_heap_def ex_blocks_def)

lemma ex_root_words: "root_words ex_top ex_heap = {0x2018, 0x4018}"
  by (simp add: root_words_def ex_top_def ex_heap_def words_of.simps sizeof_ptr_def)

lemma ex_owner:
  "owner ex_heap 0x2018 ex_blocks = 0x2000"
  "owner ex_heap 0x4018 ex_blocks = 0"
  "owner ex_heap 0x1018 ex_blocks = 0x1000"
  by (simp_all add: ex_heap_def ex_blocks_def contains_def sizeof_ObjectHeader_def)

lemma ex_data_words:
  "data_words ex_heap 0x2000 = {0x1018}"
  "data_words ex_heap 0x1000 = {0x1018}"
  by (simp_all add: data_words_def ex_heap_def words_of.simps sizeof_ptr_def sizeof_ObjectHeader_def)

lemma ex_refers: "refers ex_heap w b \<longleftrightarrow> w \<noteq> 0 \<and> b \<noteq> 0 \<and> owner ex_heap w ex_blocks = b"
  by (rule refers_registry [OF ex_registry])

lemma ex_traced: "reach ex_heap (root_words ex_top ex_heap) = {0x2000, 0x1000}"
proof (rule set_eqI, rule iffI)
  fix b assume "b \<in> reach ex_heap (root_words ex_top ex_heap)"
  then have "b \<in> reach ex_heap {0x2018, 0x4018}"
    by (simp add: ex_root_words)
  then show "b \<in> {0x2000, 0x1000}"
    by induction (auto simp: ex_refers ex_owner ex_data_words)
next
  fix b :: addr assume b: "b \<in> {0x2000, 0x1000}"
  have r1: "(0x2000 :: addr) \<in> reach ex_heap {0x2018, 0x4018}"
    by (rule reach.root [of "0x2018"]) (simp_all add: ex_refers ex_owner)
  have "(0x1000 :: addr) \<in> reach ex_heap {0x2018, 0x4018}"
    by (rule reach.step [OF r1, of "0x1018"]) (simp_all add: ex_refers ex_owner ex_data_words)
  with r1 b show "b \<in> reach ex_heap (root_words ex_top ex_heap)"
    by (auto simp: ex_root_words)
qed

lemma ex_cycle_marked: "is_marked (set_marked 0x1000 True ex_heap) 0x1000"
proof -
  have "objects ex_heap 0x1000 \<noteq> None" by (simp add: ex_heap_def)
  then show ?thesis by (simp only: set_marked_True is_marked_mark_all) simp
qed

lemma ex_cycle_run:
  "gc_mark_object ex_heap 0x1018 = Some (set_marked 0x1000 True ex_heap)"
proof -
  let ?s1 = "set_marked 0x1000 True ex_heap"
  have look: "get_header_from_data_ptr ex_heap 0x1018 = Some 0x1000"
    using get_header_registry [OF ex_registry, of "0x1018"] by (simp add: ex_owner)
  have h: "objects ex_heap 0x1000 = Some \<lparr>marked = False, size_h = 8, next_h = 0\<rparr>"
    by (simp add: ex_heap_def)
  have s1: "?s1 = mark_all {0x1000} ex_heap" by (rule set_marked_True)
  have look1: "get_header_from_data_ptr ?s1 0x1018 = Some 0x1000"
    using get_header_registry [of ?s1 ex_blocks "0x1018"] ex_registry
    by (simp add: s1 ex_owner)
  have m1: "is_marked ?s1 0x1000" by (rule ex_cycle_marked)
  have again: "gc_mark_object ?s1 0x1018 = Some ?s1"
    using look1 m1 by (blast intro: mark_object_revisit)
  have "mem ?s1 = mem ex_heap" by (simp only: s1 mark_all_simps)
  then have mem1: "mem ?s1 0x1018 = 0x1018" by (simp add: ex_heap_def)
  have scan: "gc_mark_from_region ?s1 0x1018 0x1020 = Some ?s1"
    by (subst gc_mark_from_region_step, simp add: mem1 again sizeof_ptr_def)
       (subst gc_mark_from_region_step, simp)
  show ?thesis
    by (subst gc_mark_object_step) (simp add: look h scan sizeof_ObjectHeader_def)
qed

lemma ex_data_range:
  "data_range ex_heap 0x4000 = {}"
  "data_range ex_heap 0x3000 = {12312..<12328}"
  "data_range ex_heap 0x2000 = {8216..<8224}"
  "data_range ex_heap 0x1000 = {4120..<4128}"
  by (simp_all add: data_range_def data_start_def ex_heap_def sizeof_ObjectHeader_def)

lemma ex_no_overlap: "no_overlap ex_heap ex_blocks"
  by (auto simp: no_overlap_def ex_blocks_def ex_data_range)

lemma ex_header_ok: "header_ok 0" "header_ok 0x3000" "header_ok 0x5000"
  by (simp_all add: header_ok_def sizeof_ObjectHeader_def)

lemma ex_marked_registry: "registry ex_marked ex_blocks"
  by (simp add: ex_marked_def ex_registry)

lemma ex_marked_filter: "filter (is_marked ex_marked) ex_blocks = [0x2000, 0x1000]"
proof -
  have "is_marked ex_marked b \<longleftrightarrow> b = 0x2000 \<or> b = 0x1000" if "b \<in> set ex_blocks" for b
  proof -
    have "is_marked ex_marked b \<longleftrightarrow>
          is_marked ex_heap b \<or> (b \<in> {0x2000, 0x1000} \<and> objects ex_heap b \<noteq> None)"
      unfolding ex_marked_def by (rule is_marked_mark_all)
    with that ex_all_unmarked show ?thesis
      by (auto simp: all_unmarked_def list_all_iff ex_heap_def)
  qed
  then have "filter (is_marked ex_marked) ex_blocks = filter (\<lambda>b. b = 0x2000 \<or> b = 0x1000) ex_blocks"
    by (intro filter_cong) simp_all
  then show ?thesis by (simp add: ex_blocks_def)
qed

lemma ex_malloc_max:
  "GC_malloc 0x5000 0 ex_top ex_heap (- 1) =
     Some (init_header 0x5000 (- 1) (emit (Malloc 23) ex_heap))"
  by (simp add: GC_malloc_fast sizeof_ObjectHeader_def)

lemma ex_layout_ok: "layout_ok ex_heap ex_blocks"
  unfolding layout_ok_def
  by (simp add: ex_blocks_def chunk_ok_def chunk_def ex_heap_def sizeof_ObjectHeader_def sizeof_ptr_def)

lemma ex_overflow_request:
  "\<exists>s'. GC_malloc 0x5000 0 ex_top ex_heap (- 1) = Some (0x5018, s') \<and>
        registry s' (0x5000 # ex_blocks) \<and>
        objects s' 0x5000 = Some \<lparr>marked = False, size_h = - 1, next_h = 0x4000\<rparr> \<and>
        \<not> fits s' 0x5000 \<and>
        get_header_from_data_ptr s' 0x5018 = Some 0"
proof -
  let ?s1 = "emit (Malloc 23) ex_heap"
  let ?s' = "snd (init_header 0x5000 (- 1) ?s1)"
  have run: "GC_malloc 0x5000 0 ex_top ex_heap (- 1) = Some (0x5018, ?s')"
    by (simp add: ex_malloc_max init_header_def sizeof_ObjectHeader_def)
  have "registry ?s1 ex_blocks" by (simp add: ex_registry)
  moreover have "objects ?s1 0x5000 = None" by (simp add: ex_heap_def)
  ultimately have reg: "registry ?s' (0x5000 # ex_blocks)"
    by (intro init_header_registry) simp_all
  have h: "objects ?s' 0x5000 = Some \<lparr>marked = False, size_h = - 1, next_h = 0x4000\<rparr>"
    by (simp add: init_header_simps) (simp add: ex_heap_def)
  have nf: "\<not> fits ?s' 0x5000"
    by (simp add: fits_def h data_start_def sizeof_ObjectHeader_def
          unsigned_minus_1_eq_mask mask_eq_exp_minus_1)
  have "owner ?s' 0x5018 (0x5000 # ex_blocks) = 0"
    by (simp add: ex_blocks_def contains_def init_header_simps sizeof_ObjectHeader_def)
       (simp add: ex_heap_def sizeof_ObjectHeader_def)
  with get_header_registry [OF reg, of "0x5018"]
  have "get_header_from_data_ptr ?s' 0x5018 = Some 0" by simp
  with run reg h nf show ?thesis by blast
qed

lemma ex_collect_traced:
  "registry ex_heap ex_blocks \<and> scan_ok ex_heap ex_blocks \<and> stack_ok ex_top ex_heap \<and>
   all_unmarked ex_heap ex_blocks \<and>
   (\<exists>s'. gc_collect ex_top ex_heap = Some s' \<and> registry s' [0x2000, 0x1000] \<and>
         (\<exists>h. objects s' 0x2000 = Some h \<and> \<not> marked h) \<and>
         (\<exists>h. objects s' 0x1000 = Some h \<and> \<not> marked h) \<and>
         objects s' 0x3000 = None \<and> Free 0x3000 \<in> set (trace s') \<and>
         objects s' 0x4000 = None \<and> Free 0x4000 \<in> set (trace s'))"
  using gc_collect_keeps_traced [OF ex_registry ex_scan_ok ex_stack_ok ex_all_unmarked]
    ex_registry ex_scan_ok ex_stack_ok ex_all_unmarked
  by (auto simp: ex_traced) (auto simp: ex_blocks_def)

lemma ex_find_owner_inside:
  "registry ex_heap ex_blocks \<and> no_overlap ex_heap ex_blocks \<and> 0x3000 \<in> set ex_blocks \<and>
   objects ex_heap 0x3000 = Some \<lparr>marked = False, size_h = 16, next_h = 0x2000\<rparr> \<and>
   fits ex_heap 0x3000 \<and> (9 :: addr) < 16 \<and>
   get_header_from_data_ptr ex_heap 0x3021 = Some 0x3000"
proof -
  have h: "objects ex_heap 0x3000 = Some \<lparr>marked = False, size_h = 16, next_h = 0x2000\<rparr>"
    by (simp add: ex_heap_def)
  have f: "fits ex_heap 0x3000"
    by (simp add: fits_def data_start_def ex_heap_def sizeof_ObjectHeader_def)
  have m: "0x3000 \<in> set ex_blocks" by (simp add: ex_blocks_def)
  have off: "(9 :: addr) < size_h \<lparr>marked = False, size_h = 16, next_h = 0x2000\<rparr>" by simp
  from find_owner_inside [OF ex_registry ex_no_overlap m h f off]
  have "get_header_from_data_ptr ex_heap 0x3021 = Some 0x3000"
    by (simp add: data_start_def sizeof_ObjectHeader_def)
  with ex_registry ex_no_overlap m h f show ?thesis by simp
qed

lemma ex_live_registry: "registry ex_live [0x2000, 0x1000]"
  by (simp add: registry_def ex_live_def)

lemma ex_live_scan_ok: "scan_ok ex_live [0x2000, 0x1000]"
  by (simp add: scan_ok_def end_ok_def ex_live_def sizeof_ObjectHeader_def sizeof_ptr_def)

lemma ex_live_stack_ok: "stack_ok ex_live_top ex_live"
  by (simp add: stack_ok_def end_ok_def ex_live_def ex_live_top_def sizeof_ptr_def)

lemma ex_live_all_unmarked: "all_unmarked ex_live [0x2000, 0x1000]"
  by (simp add: all_unmarked_def is_marked_def ex_live_def)

lemma ex_live_root_words: "root_words ex_live_top ex_live = {0, 0x201800000000}"
  by (simp add: root_words_def ex_live_top_def ex_live_def words_of.simps sizeof_ptr_def)

lemma ex_live_owner: "owner ex_live 0x201800000000 [0x2000, 0x1000] = 0"
  by (simp add: ex_live_def contains_def sizeof_ObjectHeader_def)

lemma ex_live_traced: "reach ex_live (root_words ex_live_top ex_live) = {}"
proof -
  have "\<not> refers ex_live w b" if "w \<in> {0, 0x201800000000}" for w b
  proof -
    from that have "w = 0 \<or> w = 0x201800000000" by simp
    then show ?thesis
    proof
      assume "w = 0"
      then show ?thesis by (simp add: refers_def)
    next
      assume "w = 0x201800000000"
      then show ?thesis
        by (simp only: refers_registry [OF ex_live_registry] ex_live_owner) simp
    qed
  qed
  then have "b \<notin> reach ex_live {0, 0x201800000000}" for b
    by (auto elim: reach.induct)
  then show ?thesis by (auto simp: ex_live_root_words)
qed

lemma ex_ghost_malloc:
  "GC_malloc 0x5000 0 ex_top ex_empty (- 1) = Some (data_start 0x5000, ex_ghost)"
  by (simp add: GC_malloc_fast init_header_def emit_def ex_empty_def ex_ghost_def
        data_start_def sizeof_ObjectHeader_def)

lemma ex_ghost_registry: "registry ex_ghost [0x5000]"
  by (simp add: registry_def ex_ghost_def)

lemma ex_ghost_collect:
  "registry ex_ghost_rooted [0x5000] \<and> all_unmarked ex_ghost_rooted [0x5000] \<and>
   mem ex_ghost_rooted ex_top = data_start 0x5000 \<and>
   ex_top \<in> set (words_of ex_top (stack_bottom ex_ghost_rooted)) \<and>
   (\<exists>s'. gc_collect ex_top ex_ghost_rooted = Some s' \<and> registry s' [] \<and>
         objects s' 0x5000 = None \<and> Free 0x5000 \<in> set (trace s'))"
proof -
  have reg: "registry ex_ghost_rooted [0x5000]"
    by (simp add: registry_def ex_ghost_rooted_def ex_ghost_def)
  have ok: "scan_ok ex_ghost_rooted [0x5000]"
    by (simp add: scan_ok_def end_ok_def ex_ghost_rooted_def ex_ghost_def
          sizeof_ObjectHeader_def sizeof_ptr_def)
  have top: "stack_ok ex_top ex_ghost_rooted"
    by (simp add: stack_ok_def end_ok_def ex_ghost_rooted_def ex_ghost_def ex_top_def sizeof_ptr_def)
  have un: "all_unmarked ex_ghost_rooted [0x5000]"
    by (simp add: all_unmarked_def is_marked_def ex_ghost_rooted_def ex_ghost_def)
  have grid: "words_of ex_top (stack_bottom ex_ghost_rooted) = [0x70F0, 0x70F8]"
    by (simp add: ex_ghost_rooted_def ex_ghost_def ex_top_def words_of.simps sizeof_ptr_def)
  have roots: "root_words ex_top ex_ghost_rooted = {0x5018, 0}"
    by (auto simp: root_words_def ex_ghost_rooted_def ex_ghost_def ex_top_def words_of.simps
          sizeof_ptr_def)
  have own: "owner ex_ghost_rooted 0x5018 [0x5000] = 0"
    by (simp add: ex_ghost_rooted_def ex_ghost_def contains_def sizeof_ObjectHeader_def)
  have "\<not> refers ex_ghost_rooted w b" if "w \<in> {0x5018, 0}" for w b
  proof -
    from that have "w = 0 \<or> w = 0x5018" by auto
    then show ?thesis
    proof
      assume "w = 0"
      then show ?thesis by (simp add: refers_def)
    next
      assume "w = 0x5018"
      then show ?thesis by (simp only: refers_registry [OF reg] own) simp
    qed
  qed
  then have "b \<notin> reach ex_ghost_rooted {0x5018, 0}" for b
    by (auto elim: reach.induct)
  then have none: "reach ex_ghost_rooted (root_words ex_top ex_ghost_rooted) = {}"
    by (auto simp: roots)
  from gc_collect_keeps_traced [OF reg ok top un]
  have "\<exists>s'. gc_collect ex_top ex_ghost_rooted = Some s' \<and> registry s' [] \<and>
         objects s' 0x5000 = None \<and> Free 0x5000 \<in> set (trace s')"
    by (auto simp: none)
  moreover have "mem ex_ghost_rooted ex_top = data_start 0x5000"
    by (simp add: ex_ghost_rooted_def ex_ghost_def ex_top_def data_start_def sizeof_ObjectHeader_def)
  moreover have "ex_top \<in> set (words_of ex_top (stack_bottom ex_ghost_rooted))"
    by (simp add: grid) (simp add: ex_top_def)
  ultimately show ?thesis using reg un by blast
qed

section \<open>The claims\<close>

subsection \<open>C1: a collection frees blocks that are reachable from the stack\<close>

text \<open>
  Claim C1.  After a full collection cycle (mark, then sweep), every block that is
  transitively reachable from the root region is still in the registry with its mark bit
  clear, and every block that is not reachable has been unlinked from the registry and
  its memory released.

  The code does not keep every reachable block.  \<open>gc_mark\<close> scans from the address of
  an \<open>int\<close> variable and loads one word every 8 bytes from there, so a pointer in a stack
  slot between two of these addresses is never loaded.  In \<open>ex_live\<close> the registry is the
  two unmarked blocks at \<open>0x2000\<close> and \<open>0x1000\<close>; the stack slot at \<open>0x7FFB0\<close>, inside
  the scanned bounds, holds the data pointer of the first block, and the data word of the
  first block holds the data pointer of the second.  The collection returns with an empty
  registry: both blocks have lost their header and the trace holds the two calls of
  \<open>free\<close>.
\<close>

theorem collect_frees_live_blocks:
  "registry ex_live [0x2000, 0x1000] \<and> all_unmarked ex_live [0x2000, 0x1000] \<and>
   ex_live_top \<le> 0x7FFB0 \<and> 0x7FFB0 + sizeof_ptr \<le> stack_bottom ex_live \<and>
   mem ex_live 0x7FFB0 = data_start 0x2000 \<and>
   mem ex_live (data_start 0x2000) = data_start 0x1000 \<and>
   (\<exists>s'. gc_collect ex_live_top ex_live = Some s' \<and> registry s' [] \<and>
         objects s' 0x2000 = None \<and> Free 0x2000 \<in> set (trace s') \<and>
         objects s' 0x1000 = None \<and> Free 0x1000 \<in> set (trace s'))"
proof -
  from gc_collect_keeps_traced
    [OF ex_live_registry ex_live_scan_ok ex_live_stack_ok ex_live_all_unmarked]
  have "\<exists>s'. gc_collect ex_live_top ex_live = Some s' \<and> registry s' [] \<and>
         objects s' 0x2000 = None \<and> Free 0x2000 \<in> set (trace s') \<and>
         objects s' 0x1000 = None \<and> Free 0x1000 \<in> set (trace s')"
    by (auto simp: ex_live_traced)
  moreover have "ex_live_top \<le> 0x7FFB0" "0x7FFB0 + sizeof_ptr \<le> stack_bottom ex_live"
    "mem ex_live 0x7FFB0 = data_start 0x2000"
    "mem ex_live (data_start 0x2000) = data_start 0x1000"
    by (simp_all add: ex_live_top_def ex_live_def sizeof_ptr_def data_start_def
          sizeof_ObjectHeader_def)
  ultimately show ?thesis using ex_live_registry ex_live_all_unmarked by blast
qed

subsection \<open>C2: marking returns, also on cyclic object graphs\<close>

text \<open>
  Claim C2.  \<open>gc_mark_object\<close> terminates on every candidate pointer, also when the
  object graph has cycles, because the mark bit of a block is set before its data region
  is scanned: a visit of a block that is already marked does nothing.

  On every registry that is a list, with data regions that end below the last word of the
  address space, the call returns a state.  And wherever the lookup answers a marked
  block, the call returns the very state it was given.
\<close>

theorem mark_object_terminates:
  assumes "registry s xs" "scan_ok s xs"
  shows "(\<exists>s'. gc_mark_object s ptr = Some s') \<and>
         (\<forall>b. get_header_from_data_ptr s ptr = Some b \<longrightarrow> is_marked s b \<longrightarrow>
              gc_mark_object s ptr = Some s)"
proof
  from mark_object_total [OF assms order_refl, of ptr]
  show "\<exists>s'. gc_mark_object s ptr = Some s'" by blast
next
  show "\<forall>b. get_header_from_data_ptr s ptr = Some b \<longrightarrow> is_marked s b \<longrightarrow>
          gc_mark_object s ptr = Some s"
    by (blast intro: mark_object_revisit)
qed

text \<open>
  The block at \<open>0x1000\<close> holds a pointer to its own data region, a cycle of length one.
\<close>

theorem mark_object_terminates_witness:
  "registry ex_heap ex_blocks \<and> scan_ok ex_heap ex_blocks \<and>
   mem ex_heap 0x1018 = 0x1018 \<and>
   (\<exists>s'. gc_mark_object ex_heap 0x1018 = Some s' \<and> is_marked s' 0x1000)"
proof -
  from mark_object_terminates [OF ex_registry ex_scan_ok, of "0x1018"]
  obtain s' where "gc_mark_object ex_heap 0x1018 = Some s'" by blast
  moreover from this have "is_marked s' 0x1000"
    using ex_cycle_marked by (simp add: ex_cycle_run)
  moreover have "mem ex_heap 0x1018 = 0x1018" by (simp add: ex_heap_def)
  ultimately show ?thesis using ex_registry ex_scan_ok by blast
qed

subsection \<open>C3: the lookup misses a block whose size overflows the request\<close>

text \<open>
  Claim C3.  For every block \<open>B\<close> of the registry and every offset \<open>off\<close> below the
  size of \<open>B\<close>, the lookup of the address \<open>data_start B + off\<close> answers \<open>B\<close>.

  The code breaks this for a block from a request that overflows.  \<open>GC_malloc\<close> adds
  the header size to the requested size without a check, and stores the requested size in
  the header.  From the empty registry, a request of \<open>2 ^ 64 - 1\<close> bytes with the answer
  \<open>0x5000\<close> of \<open>malloc\<close> returns the data pointer of \<open>0x5000\<close> and the state
  \<open>ex_ghost\<close>: its registry is the one block at \<open>0x5000\<close> with the size field
  \<open>2 ^ 64 - 1\<close>.  The offset 0 is below this size, and the lookup of the data pointer plus
  0 answers the null header: the end pointer of the block has wrapped around to below
  its data pointer.
\<close>

theorem overflow_block_not_found:
  "GC_malloc 0x5000 0 ex_top ex_empty (- 1) = Some (data_start 0x5000, ex_ghost) \<and>
   registry ex_ghost [0x5000] \<and>
   objects ex_ghost 0x5000 = Some \<lparr>marked = False, size_h = - 1, next_h = 0\<rparr> \<and>
   (0 :: size_t) < size_of ex_ghost 0x5000 \<and>
   get_header_from_data_ptr ex_ghost (data_start 0x5000 + 0) = Some 0"
proof -
  have "owner ex_ghost (data_start 0x5000 + 0) [0x5000] = 0"
    by (simp add: ex_ghost_def contains_def data_start_def sizeof_ObjectHeader_def)
  with get_header_registry [OF ex_ghost_registry, of "data_start 0x5000 + 0"]
  have "get_header_from_data_ptr ex_ghost (data_start 0x5000 + 0) = Some 0" by simp
  moreover have "objects ex_ghost 0x5000 = Some \<lparr>marked = False, size_h = - 1, next_h = 0\<rparr>"
    by (simp add: ex_ghost_def)
  moreover have "(0 :: size_t) < size_of ex_ghost 0x5000"
    by (simp add: size_of_def ex_ghost_def word_gt_0)
  ultimately show ?thesis using ex_ghost_malloc ex_ghost_registry by blast
qed

subsection \<open>C4: an address outside every block is not found\<close>

text \<open>
  Claim C4.  For every candidate address that lies outside the data region, from
  \<open>data_start\<close> up to and without \<open>data_start + size\<close>, of every block of the
  registry, the lookup answers "not found": it returns the null header, an ordinary result.
\<close>

theorem find_none_outside:
  assumes "registry s xs" "\<forall>b\<in>set xs. unat ptr \<notin> data_range s b"
  shows "get_header_from_data_ptr s ptr = Some 0"
proof -
  from owner_cases [of s ptr xs] assms(2) contains_data_range
  have "owner s ptr xs = 0" by blast
  with get_header_registry [OF assms(1), of ptr] show ?thesis by simp
qed

text \<open>
  The address one past the end of the block at \<open>0x3000\<close>.
\<close>

theorem find_none_outside_witness:
  "registry ex_heap ex_blocks \<and>
   list_all (\<lambda>b. unat (0x3028 :: addr) \<notin> data_range ex_heap b) ex_blocks \<and>
   get_header_from_data_ptr ex_heap 0x3028 = Some 0"
proof -
  have out: "list_all (\<lambda>b. unat (0x3028 :: addr) \<notin> data_range ex_heap b) ex_blocks"
    by (simp add: ex_blocks_def ex_data_range)
  then have "\<forall>b\<in>set ex_blocks. unat (0x3028 :: addr) \<notin> data_range ex_heap b"
    by (simp add: list_all_iff)
  from find_none_outside [OF ex_registry this] ex_registry out show ?thesis by simp
qed

subsection \<open>C5: marking twice is marking once\<close>

text \<open>
  Claim C5.  Calling \<open>gc_mark_object\<close> twice in a row on the same candidate leaves the
  mark bits of all blocks as one call leaves them: the second call returns the state that
  the first call has returned.
\<close>

theorem mark_object_idempotent:
  assumes "registry s xs" "scan_ok s xs"
  shows "\<exists>s'. gc_mark_object s ptr = Some s' \<and> gc_mark_object s' ptr = Some s'"
proof -
  from mark_object_total [OF assms order_refl, of ptr] obtain s'
    where s': "gc_mark_object s ptr = Some s'" "mark_post s xs {ptr} s'"
    by blast
  from mark_object_again [OF assms(1) s'(2)] s'(1) show ?thesis by blast
qed

text \<open>
  The pointer into the block at \<open>0x2000\<close>, from which two blocks get marked.
\<close>

theorem mark_object_idempotent_witness:
  "registry ex_heap ex_blocks \<and> scan_ok ex_heap ex_blocks \<and>
   (\<exists>s'. gc_mark_object ex_heap 0x2018 = Some s' \<and> gc_mark_object s' 0x2018 = Some s')"
  using mark_object_idempotent [OF ex_registry ex_scan_ok, of "0x2018"] ex_registry ex_scan_ok
  by blast

subsection \<open>C6: the null result of GC_malloc\<close>

text \<open>
  Claim C6.  \<open>GC_malloc\<close> returns the null pointer, and never fails in another way, if
  and only if the system allocator fails both before and after one full collection; when
  the first call of \<open>malloc\<close> succeeds, no collection runs and the result is not null.

  \<open>r1\<close> and \<open>r2\<close> are the two answers of \<open>malloc\<close>; a header at a non-null answer
  lies inside the address space.  With \<open>r1\<close> not null the result is the data pointer
  of \<open>r1\<close>, the trace has grown by the one call of \<open>malloc\<close> and nothing else, and no
  header but the one at \<open>r1\<close> has changed.  With \<open>r1\<close> null, the state after the second call of \<open>malloc\<close> is the
  result of one \<open>gc_collect\<close>, extended by that call and, for \<open>r2\<close> not null, by the
  header at \<open>r2\<close>.
\<close>

theorem GC_malloc_null_iff:
  assumes "registry s xs" "scan_ok s xs" "stack_ok stack_top s"
    and "header_ok r1" "header_ok r2"
  shows "\<exists>res s'. GC_malloc r1 r2 stack_top s sz = Some (res, s') \<and>
           (res = 0 \<longleftrightarrow> r1 = 0 \<and> r2 = 0) \<and>
           (r1 \<noteq> 0 \<longrightarrow>
              res = data_start r1 \<and>
              trace s' = trace s @ [Malloc (sizeof_ObjectHeader + sz)] \<and>
              mem s' = mem s \<and> (\<forall>a. a \<noteq> r1 \<longrightarrow> objects s' a = objects s a)) \<and>
           (r1 = 0 \<longrightarrow>
              (\<exists>s2. gc_collect stack_top (emit (Malloc (sizeof_ObjectHeader + sz)) s) = Some s2 \<and>
                    trace s' = trace s2 @ [Malloc (sizeof_ObjectHeader + sz)] \<and>
                    mem s' = mem s2 \<and> (\<forall>a. a \<noteq> r2 \<longrightarrow> objects s' a = objects s2 a) \<and>
                    (r2 = 0 \<longrightarrow> s' = emit (Malloc (sizeof_ObjectHeader + sz)) s2) \<and>
                    (r2 \<noteq> 0 \<longrightarrow> res = data_start r2)))"
proof (cases "r1 = 0")
  case False
  let ?r = "init_header r1 sz (emit (Malloc (sizeof_ObjectHeader + sz)) s)"
  from False have "GC_malloc r1 r2 stack_top s sz = Some (fst ?r, snd ?r)"
    by (simp add: GC_malloc_fast)
  moreover from False assms(4) have "fst ?r \<noteq> 0"
    by (simp add: init_header_simps header_ok_data_start)
  ultimately show ?thesis using False
    by (simp add: init_header_simps)
next
  case True
  let ?s1 = "emit (Malloc (sizeof_ObjectHeader + sz)) s"
  from gc_collect_total [of ?s1 xs stack_top] assms(1,2,3)
  obtain s2 where s2: "gc_collect stack_top ?s1 = Some s2" by auto
  show ?thesis
  proof (cases "r2 = 0")
    case r2: True
    from s2 True r2 have "GC_malloc r1 r2 stack_top s sz = Some (0, emit (Malloc (sizeof_ObjectHeader + sz)) s2)"
      by (simp add: GC_malloc_slow)
    with s2 True r2 show ?thesis by simp
  next
    case r2: False
    let ?r = "init_header r2 sz (emit (Malloc (sizeof_ObjectHeader + sz)) s2)"
    from s2 True r2 have "GC_malloc r1 r2 stack_top s sz = Some (fst ?r, snd ?r)"
      by (simp add: GC_malloc_slow)
    moreover from r2 assms(5) have "fst ?r \<noteq> 0"
      by (simp add: init_header_simps header_ok_data_start)
    ultimately show ?thesis using s2 True r2
      by (simp add: init_header_simps)
  qed
qed

text \<open>
  On the example heap, with a first answer that is null: a null second answer gives the
  null result, and the second answer \<open>0x3000\<close> gives the data pointer \<open>0x3018\<close>.
\<close>

theorem GC_malloc_null_iff_witness:
  "registry ex_heap ex_blocks \<and> scan_ok ex_heap ex_blocks \<and> stack_ok ex_top ex_heap \<and>
   header_ok 0 \<and> header_ok 0x3000 \<and>
   (\<exists>s'. GC_malloc 0 0 ex_top ex_heap 32 = Some (0, s')) \<and>
   (\<exists>s'. GC_malloc 0 0x3000 ex_top ex_heap 32 = Some (0x3018, s'))"
proof -
  from GC_malloc_null_iff [OF ex_registry ex_scan_ok ex_stack_ok ex_header_ok(1) ex_header_ok(1),
      of 32]
  have a: "\<exists>s'. GC_malloc 0 0 ex_top ex_heap 32 = Some (0, s')" by auto
  from GC_malloc_null_iff [OF ex_registry ex_scan_ok ex_stack_ok ex_header_ok(1) ex_header_ok(2),
      of 32]
  have b: "\<exists>s'. GC_malloc 0 0x3000 ex_top ex_heap 32 = Some (0x3018, s')"
    by (auto simp: data_start_def sizeof_ObjectHeader_def)
  from a b ex_registry ex_scan_ok ex_stack_ok ex_header_ok show ?thesis by simp
qed

subsection \<open>C7: no block is marked between two collections\<close>



subsection \<open>C8: the size requested from the system allocator\<close>

text \<open>
  Claim C8.  For every requested size, \<open>GC_malloc\<close> asks the system allocator for the
  size plus the size of the header, computed in unsigned 64-bit arithmetic, that is,
  modulo \<open>2 ^ 64\<close>.

  From every state whose registry is a list, with scanned regions that end below the last
  word of the address space, \<open>GC_malloc\<close> returns, for every size and both answers of
  \<open>malloc\<close>.  The calls of \<open>malloc\<close> it has added to the trace are one request of
  \<open>sizeof_ObjectHeader + sz\<close> when the first answer is not null, and two such requests,
  one before and one after the collection, when it is null.  The number of bytes of every
  such request is \<open>(24 + sz) mod 2 ^ 64\<close>.
\<close>

theorem GC_malloc_requests:
  assumes "registry s xs" "scan_ok s xs" "stack_ok stack_top s"
  shows "\<exists>res s' evs. GC_malloc r1 r2 stack_top s sz = Some (res, s') \<and>
           trace s' = trace s @ evs \<and>
           filter is_Malloc evs =
             (if r1 = 0 then [Malloc (sizeof_ObjectHeader + sz), Malloc (sizeof_ObjectHeader + sz)]
              else [Malloc (sizeof_ObjectHeader + sz)]) \<and>
           list_all (\<lambda>e. case e of Malloc n \<Rightarrow> unat n = (24 + unat sz) mod 2 ^ 64 | _ \<Rightarrow> True) evs"
proof -
  let ?m = "Malloc (sizeof_ObjectHeader + sz)"
  let ?P = "\<lambda>e. case e of Malloc n \<Rightarrow> unat n = (24 + unat sz) mod 2 ^ 64 | _ \<Rightarrow> True"
  have n: "?P ?m"
    by (simp add: sizeof_ObjectHeader_def unat_word_ariths)
  have other: "list_all ?P evs" if "filter is_Malloc evs = []" for evs
    using that by (induction evs) (auto simp: is_Malloc_def split: event.splits if_splits)
  show ?thesis
  proof (cases "r1 = 0")
    case False
    let ?r = "init_header r1 sz (emit ?m s)"
    from False have "GC_malloc r1 r2 stack_top s sz = Some (fst ?r, snd ?r)"
      by (simp add: GC_malloc_fast)
    moreover have "trace (snd ?r) = trace s @ [?m]" by (simp add: init_header_simps)
    moreover have "filter is_Malloc [?m] = [?m]" by (simp add: is_Malloc_def)
    moreover from n have "list_all ?P [?m]" by simp
    ultimately show ?thesis using False
      by (intro exI [of _ "fst ?r"] exI [of _ "snd ?r"] exI [of _ "[?m]"]) simp
  next
    case True
    from gc_collect_total [of "emit ?m s" xs stack_top] assms
    obtain s2 where s2: "gc_collect stack_top (emit ?m s) = Some s2" by auto
    from gc_collect_trace [OF s2] obtain evs
      where evs: "trace s2 = trace (emit ?m s) @ evs" "filter is_Malloc evs = []"
      by blast
    let ?s' = "if r2 = 0 then emit ?m s2 else snd (init_header r2 sz (emit ?m s2))"
    let ?res = "if r2 = 0 then 0 else fst (init_header r2 sz (emit ?m s2))"
    from s2 True have "GC_malloc r1 r2 stack_top s sz = Some (?res, ?s')"
      by (simp add: GC_malloc_slow)
    moreover from evs(1) have "trace ?s' = trace s @ (?m # evs @ [?m])"
      by (simp add: init_header_simps)
    moreover from evs(2) have "filter is_Malloc (?m # evs @ [?m]) = [?m, ?m]"
      by (simp add: is_Malloc_def)
    moreover from n other [OF evs(2)] have "list_all ?P (?m # evs @ [?m])" by simp
    ultimately show ?thesis using True
      by (intro exI [of _ ?res] exI [of _ ?s'] exI [of _ "?m # evs @ [?m]"]) simp
  qed
qed

text \<open>
  On the example heap: a request of 32 bytes with a null first answer makes two requests of
  56 bytes, and a request of \<open>2 ^ 64 - 1\<close> bytes with the first answer \<open>0x5000\<close> makes
  one request of 23 bytes.
\<close>

theorem GC_malloc_requests_witness:
  "registry ex_heap ex_blocks \<and> scan_ok ex_heap ex_blocks \<and> stack_ok ex_top ex_heap \<and>
   (\<exists>res s' evs. GC_malloc 0 0x3000 ex_top ex_heap 32 = Some (res, s') \<and>
      trace s' = trace ex_heap @ evs \<and> filter is_Malloc evs = [Malloc 56, Malloc 56]) \<and>
   (\<exists>res s' evs. GC_malloc 0x5000 0 ex_top ex_heap (- 1) = Some (res, s') \<and>
      trace s' = trace ex_heap @ evs \<and> filter is_Malloc evs = [Malloc 23])"
proof -
  from GC_malloc_requests [OF ex_registry ex_scan_ok ex_stack_ok, of 0 "0x3000" 32]
  have a: "\<exists>res s' evs. GC_malloc 0 0x3000 ex_top ex_heap 32 = Some (res, s') \<and>
      trace s' = trace ex_heap @ evs \<and> filter is_Malloc evs = [Malloc 56, Malloc 56]"
    by (auto simp: sizeof_ObjectHeader_def)
  from GC_malloc_requests [OF ex_registry ex_scan_ok ex_stack_ok, of "0x5000" 0 "- 1"]
  have b: "\<exists>res s' evs. GC_malloc 0x5000 0 ex_top ex_heap (- 1) = Some (res, s') \<and>
      trace s' = trace ex_heap @ evs \<and> filter is_Malloc evs = [Malloc 23]"
    by (auto simp: sizeof_ObjectHeader_def)
  from a b ex_registry ex_scan_ok ex_stack_ok show ?thesis by blast
qed

subsection \<open>C9: a block of size 0\<close>

text \<open>
  Claim C9.  A block of size 0 is never the answer of the lookup, whatever the candidate
  address; so it is never marked; and every collection unlinks and frees it, also when a
  pointer to its data region is in the root region.
\<close>

theorem empty_block_is_swept:
  assumes inv: "registry s xs" "scan_ok s xs" "stack_ok stack_top s"
    and b: "b \<in> set xs" "objects s b = Some h" "size_h h = 0" "\<not> marked h"
  shows "(\<forall>ptr. get_header_from_data_ptr s ptr \<noteq> Some b) \<and>
         (\<forall>ptr. \<exists>s1. gc_mark_object s ptr = Some s1 \<and> \<not> is_marked s1 b) \<and>
         (\<exists>s'. gc_collect stack_top s = Some s' \<and> objects s' b = None \<and>
               Free b \<in> set (trace s') \<and> (\<forall>ys. registry s' ys \<longrightarrow> b \<notin> set ys))"
proof (intro conjI allI)
  from b(2,3) have sz: "size_of s b = 0" by (simp add: size_of_def)
  from inv(1) b(1) have nz: "b \<noteq> 0"
    unfolding registry_def using chain_nonnull by blast
  {
    fix ptr
    show "get_header_from_data_ptr s ptr \<noteq> Some b"
    proof
      assume "get_header_from_data_ptr s ptr = Some b"
      with nz get_header_loop_contains [of s ptr "heap_start s" b]
      have "contains s ptr b" by (simp add: get_header_from_data_ptr_def)
      with sz contains_nonempty show False by blast
    qed
  next
    fix ptr
    from mark_object_total [OF inv(1,2) order_refl, of ptr] obtain s1
      where s1: "gc_mark_object s ptr = Some s1" "mark_post s xs {ptr} s1"
      by blast
    from mark_post_skips_empty [OF s1(2) sz] b(2,4) have "\<not> is_marked s1 b"
      by (simp add: is_marked_def)
    with s1(1) show "\<exists>s1. gc_mark_object s ptr = Some s1 \<and> \<not> is_marked s1 b" by blast
  }
  from gc_collect_total [OF inv] obtain s1 s'
    where c: "mark_post s xs (root_words stack_top s) s1" "sweep_post s1 Head xs s'"
      "gc_collect stack_top s = Some s'"
    by blast
  from mark_post_skips_empty [OF c(1) sz] b(2) have "objects s1 b = Some h" by simp
  from sweep_post_freed [OF c(2) b(1) this b(4)]
  have gone: "objects s' b = None" "Free b \<in> set (trace s')" by simp_all
  have "b \<notin> set ys" if "registry s' ys" for ys
    using that gone(1) chain_present [of s' "heap_start s'" ys b]
    by (auto simp: registry_def)
  with c(3) gone
  show "\<exists>s'. gc_collect stack_top s = Some s' \<and> objects s' b = None \<and>
               Free b \<in> set (trace s') \<and> (\<forall>ys. registry s' ys \<longrightarrow> b \<notin> set ys)"
    by blast
qed

text \<open>
  The empty block at \<open>0x4000\<close>; its data pointer is one of the two scanned stack words.
\<close>

theorem empty_block_is_swept_witness:
  "registry ex_heap ex_blocks \<and> scan_ok ex_heap ex_blocks \<and> stack_ok ex_top ex_heap \<and>
   0x4000 \<in> set ex_blocks \<and>
   objects ex_heap 0x4000 = Some \<lparr>marked = False, size_h = 0, next_h = 0x3000\<rparr> \<and>
   data_start 0x4000 \<in> root_words ex_top ex_heap \<and>
   get_header_from_data_ptr ex_heap (data_start 0x4000) \<noteq> Some 0x4000 \<and>
   (\<exists>s1. gc_mark_object ex_heap (data_start 0x4000) = Some s1 \<and> \<not> is_marked s1 0x4000) \<and>
   (\<exists>s'. gc_collect ex_top ex_heap = Some s' \<and> objects s' 0x4000 = None \<and>
         Free 0x4000 \<in> set (trace s'))"
proof -
  have m: "0x4000 \<in> set ex_blocks" by (simp add: ex_blocks_def)
  have h: "objects ex_heap 0x4000 = Some \<lparr>marked = False, size_h = 0, next_h = 0x3000\<rparr>"
    by (simp add: ex_heap_def)
  have root: "data_start 0x4000 \<in> root_words ex_top ex_heap"
    by (simp add: ex_root_words data_start_def sizeof_ObjectHeader_def)
  from empty_block_is_swept [OF ex_registry ex_scan_ok ex_stack_ok m h]
  have "(\<forall>ptr. get_header_from_data_ptr ex_heap ptr \<noteq> Some 0x4000) \<and>
        (\<forall>ptr. \<exists>s1. gc_mark_object ex_heap ptr = Some s1 \<and> \<not> is_marked s1 0x4000) \<and>
        (\<exists>s'. gc_collect ex_top ex_heap = Some s' \<and> objects s' 0x4000 = None \<and>
              Free 0x4000 \<in> set (trace s') \<and> (\<forall>ys. registry s' ys \<longrightarrow> 0x4000 \<notin> set ys))"
    by simp
  with ex_registry ex_scan_ok ex_stack_ok m h root show ?thesis by blast
qed

subsection \<open>C10: what the sweep leaves unchanged\<close>

text \<open>
  Claim C10.  The sweep changes mark bits and links of the registry only: every block
  that it keeps has its size field and the contents of its data region unchanged, and the
  kept blocks stay in the order they had in the registry.

  \<open>gc_sweep\<close> returns; the registry is the old list without the unmarked blocks; the
  header of a kept block differs from the old one in the mark bit and the \<open>next\<close>
  field at most; the scanned memory and every header outside the registry are unchanged.
\<close>

theorem sweep_frame:
  assumes "registry s xs"
  shows "\<exists>s'. gc_sweep s = Some s' \<and>
           registry s' (filter (is_marked s) xs) \<and>
           mem s' = mem s \<and> stack_bottom s' = stack_bottom s \<and>
           (\<forall>b\<in>set xs. \<forall>h. objects s b = Some h \<longrightarrow> marked h \<longrightarrow>
              (\<exists>n. objects s' b = Some (h\<lparr>marked := False, next_h := n\<rparr>))) \<and>
           (\<forall>a. a \<notin> set xs \<longrightarrow> objects s' a = objects s a)"
proof -
  from gc_sweep_total [OF assms] obtain s'
    where s': "gc_sweep s = Some s'" "sweep_post s Head xs s'"
    by blast
  from s'(2) have "mem s' = mem s" "stack_bottom s' = stack_bottom s"
    "\<forall>a. a \<notin> set xs \<longrightarrow> objects s' a = objects s a"
    by (simp_all add: sweep_post_def)
  with s'(1) sweep_post_registry [OF s'(2)] sweep_post_kept [OF s'(2)]
  show ?thesis by blast
qed

text \<open>
  The sweep of the example heap with the blocks at \<open>0x2000\<close> and \<open>0x1000\<close> marked.
\<close>

theorem sweep_frame_witness:
  "registry ex_marked ex_blocks \<and>
   (\<exists>s'. gc_sweep ex_marked = Some s' \<and> registry s' [0x2000, 0x1000] \<and>
         mem s' = mem ex_marked \<and>
         (\<exists>n. objects s' 0x2000 = Some \<lparr>marked = False, size_h = 8, next_h = n\<rparr>) \<and>
         objects s' 0x5000 = objects ex_marked 0x5000)"
proof -
  have h: "objects ex_marked 0x2000 = Some \<lparr>marked = True, size_h = 8, next_h = 0x1000\<rparr>"
    unfolding ex_marked_def by (simp add: objects_mark_all) (simp add: ex_heap_def)
  from sweep_frame [OF ex_marked_registry] obtain s'
    where s': "gc_sweep ex_marked = Some s'" "registry s' (filter (is_marked ex_marked) ex_blocks)"
      "mem s' = mem ex_marked"
      "\<forall>b\<in>set ex_blocks. \<forall>h. objects ex_marked b = Some h \<longrightarrow> marked h \<longrightarrow>
          (\<exists>n. objects s' b = Some (h\<lparr>marked := False, next_h := n\<rparr>))"
      "\<forall>a. a \<notin> set ex_blocks \<longrightarrow> objects s' a = objects ex_marked a"
    by blast
  from s'(4) h have "\<exists>n. objects s' 0x2000 = Some \<lparr>marked = False, size_h = 8, next_h = n\<rparr>"
    by (auto simp: ex_blocks_def)
  moreover from s'(5) have "objects s' 0x5000 = objects ex_marked 0x5000"
    by (simp add: ex_blocks_def)
  ultimately show ?thesis using s'(1,2,3) ex_marked_registry
    by (auto simp: ex_marked_filter)
qed

end
